theory Spec2Isabelle
  imports Main "HOL-Library.Word" "HOL-Library.Sublist" "HOL-Library.Multiset"
begin

unbundle bit_operations_syntax

section \<open>The access-control cache (package edgraph)\<close>

text \<open>
  Permissions and operation codes are Go \<open>int32\<close> bit masks. The types \<open>acl.Acl\<close>,
  \<open>acl.Group\<close> and \<open>acl.Operation\<close> are declared outside the two source files; the
  records below carry exactly the fields the code reads.
\<close>

type_synonym int32 = "32 word"

record Acl =
  Predicate :: string
  Regex :: string
  Perm :: int32

record Group =
  GroupID :: string
  Acls :: string

record Operation =
  Code :: int32
  Name :: string

text \<open>
  \<open>predRegexRule\<close>: a compiled pattern and the permissions of each group. The compiled
  pattern type \<open>'r\<close> belongs to Go's \<open>regexp\<close> package; compiling and matching are
  parameters (\<open>compile\<close>, \<open>matchString\<close>) of the functions below.
\<close>

record 'r predRegexRule =
  predRegex :: 'r
  groupPerms :: "string \<rightharpoonup> int32"

record 'r aclCache =
  predPerms :: "string \<rightharpoonup> (string \<rightharpoonup> int32)"
  predRegexRules :: "'r predRegexRule list"

datatype error =
    OnlyGroot string
  | Unauthorized string string
  | Fatal string

subsection \<open>update\<close>

text \<open>
  The body of the inner loop of \<open>update\<close>, for one rule \<open>a\<close> of the group \<open>gid\<close>.
  \<open>pp\<close> is the local \<open>predPerms\<close>; \<open>rp\<close> is the local \<open>predRegexPerms\<close>, kept as an
  association list in insertion order (Go iterates over the map in an unspecified
  order when it builds the slice; the statements below do not depend on the order).
\<close>

definition updateAcl ::
  "(string \<Rightarrow> 'r option) \<Rightarrow> string \<Rightarrow>
   (string \<rightharpoonup> (string \<rightharpoonup> int32)) \<times> (string \<times> 'r predRegexRule) list \<Rightarrow> Acl \<Rightarrow>
   (string \<rightharpoonup> (string \<rightharpoonup> int32)) \<times> (string \<times> 'r predRegexRule) list" where
  "updateAcl compile gid acc a =
     (case acc of (pp, rp) \<Rightarrow>
        if length (Predicate a) > 0 then
          (case pp (Predicate a) of
             Some gp \<Rightarrow> (pp(Predicate a \<mapsto> gp(gid \<mapsto> Perm a)), rp)
           | None \<Rightarrow> (pp(Predicate a \<mapsto> [gid \<mapsto> Perm a]), rp))
        else if length (Regex a) > 0 then
          (case map_of rp (Regex a) of
             Some rule \<Rightarrow>
               (pp, map (\<lambda>(k, r). if k = Regex a
                                    then (k, r\<lparr>groupPerms := (groupPerms r)(gid \<mapsto> Perm a)\<rparr>)
                                    else (k, r)) rp)
           | None \<Rightarrow>
               (case compile (Regex a) of
                  None \<Rightarrow> (pp, rp)
                | Some re \<Rightarrow>
                    (pp, rp @ [(Regex a, \<lparr>predRegex = re, groupPerms = [gid \<mapsto> Perm a]\<rparr>)])))
        else (pp, rp))"

text \<open>The body of the outer loop: a group whose blob does not unmarshal is skipped.\<close>

definition updateGroup ::
  "(string \<Rightarrow> Acl list option) \<Rightarrow> (string \<Rightarrow> 'r option) \<Rightarrow>
   (string \<rightharpoonup> (string \<rightharpoonup> int32)) \<times> (string \<times> 'r predRegexRule) list \<Rightarrow> Group \<Rightarrow>
   (string \<rightharpoonup> (string \<rightharpoonup> int32)) \<times> (string \<times> 'r predRegexRule) list" where
  "updateGroup unmarshal compile acc g =
     (case unmarshal (Acls g) of
        None \<Rightarrow> acc
      | Some acls \<Rightarrow> foldl (updateAcl compile (GroupID g)) acc acls)"

definition update ::
  "(string \<Rightarrow> Acl list option) \<Rightarrow> (string \<Rightarrow> 'r option) \<Rightarrow>
   'r aclCache \<Rightarrow> Group list \<Rightarrow> 'r aclCache" where
  "update unmarshal compile cache groups =
     (case foldl (updateGroup unmarshal compile) (Map.empty, []) groups of
        (pp, rp) \<Rightarrow> cache\<lparr>predPerms := pp, predRegexRules := map snd rp\<rparr>)"

subsection \<open>authorizePredicate\<close>

fun hasRequiredAccess :: "(string \<rightharpoonup> int32) \<Rightarrow> string list \<Rightarrow> Operation \<Rightarrow> bool" where
  "hasRequiredAccess gp [] operation = False"
| "hasRequiredAccess gp (g # gs) operation =
     (case gp g of
        Some groupPerm \<Rightarrow>
          if groupPerm AND Code operation \<noteq> 0 then True
          else hasRequiredAccess gp gs operation
      | None \<Rightarrow> hasRequiredAccess gp gs operation)"

text \<open>
  The loop over the regex rules. \<open>None\<close>: the loop returned \<open>nil\<close> from inside (a
  matching rule grants the operation); \<open>Some m\<close>: the loop ended with
  \<open>predRegexMatch = m\<close>.
\<close>

fun regexRulesLoop ::
  "('r \<Rightarrow> string \<Rightarrow> bool) \<Rightarrow> string list \<Rightarrow> string \<Rightarrow> Operation \<Rightarrow>
   'r predRegexRule list \<Rightarrow> bool \<Rightarrow> bool option" where
  "regexRulesLoop matchString groups predicate operation [] m = Some m"
| "regexRulesLoop matchString groups predicate operation (r # rs) m =
     (if matchString (predRegex r) predicate then
        (if hasRequiredAccess (groupPerms r) groups operation then None
         else regexRulesLoop matchString groups predicate operation rs True)
      else regexRulesLoop matchString groups predicate operation rs m)"

text \<open>
  \<open>authorizePredicate\<close> returns a Go \<open>error\<close>: \<open>None\<close> is \<open>nil\<close> (the operation is
  allowed). \<open>isAclPredicate\<close> is \<open>x.IsAclPredicate\<close>, of another package.
\<close>

definition authorizePredicate ::
  "(string \<Rightarrow> bool) \<Rightarrow> ('r \<Rightarrow> string \<Rightarrow> bool) \<Rightarrow> 'r aclCache \<Rightarrow>
   string list \<Rightarrow> string \<Rightarrow> Operation \<Rightarrow> error option" where
  "authorizePredicate isAclPredicate matchString cache groups predicate operation =
     (if isAclPredicate predicate then Some (OnlyGroot predicate)
      else
        (case (case predPerms cache predicate of
                 Some gp \<Rightarrow> if hasRequiredAccess gp groups operation then None else Some True
               | None \<Rightarrow> Some False) of
           None \<Rightarrow> None
         | Some singlePredMatch \<Rightarrow>
             (case regexRulesLoop matchString groups predicate operation
                     (predRegexRules cache) False of
                None \<Rightarrow> None
              | Some predRegexMatch \<Rightarrow>
                  if singlePredMatch \<or> predRegexMatch
                  then Some (Unauthorized (Name operation) predicate)
                  else None)))"

subsection \<open>Notions used to state the properties of the cache\<close>

text \<open>
  An exact-predicate rule for \<open>p\<close> occurs in the blob of one of the groups \<open>gs\<close>; a
  pattern \<open>re\<close> is the compiled regex of a rule of one of the groups.
\<close>

definition from_groups :: "(string \<Rightarrow> Acl list option) \<Rightarrow> Group list \<Rightarrow> string \<Rightarrow> bool" where
  "from_groups um gs p =
     (\<exists>g \<in> set gs. \<exists>acls. um (Acls g) = Some acls \<and>
        (\<exists>a \<in> set acls. Predicate a = p \<and> p \<noteq> []))"

definition regex_from_groups ::
  "(string \<Rightarrow> Acl list option) \<Rightarrow> (string \<Rightarrow> 'r option) \<Rightarrow> Group list \<Rightarrow> 'r \<Rightarrow> bool" where
  "regex_from_groups um rc gs re =
     (\<exists>g \<in> set gs. \<exists>acls. um (Acls g) = Some acls \<and>
        (\<exists>a \<in> set acls. rc (Regex a) = Some re))"

text \<open>Every key of the local regex map is a regex that compiled.\<close>

definition compiled_keys ::
  "(string \<Rightarrow> 'r option) \<Rightarrow> (string \<times> 'r predRegexRule) list \<Rightarrow> bool" where
  "compiled_keys rc rp = (\<forall>k \<in> set (map fst rp). rc k \<noteq> None)"

subsection \<open>A small cache, for concrete runs\<close>

text \<open>
  In the concrete runs a pattern is a literal prefix, \<open>(\<close> is the one regex that does
  not compile, and the blobs \<open>A\<close> and \<open>B\<close> are the only ones that unmarshal.
\<close>

definition exIsAcl :: "string \<Rightarrow> bool" where
  "exIsAcl p = (p = ''dgraph.xid'')"

definition exMatch :: "string \<Rightarrow> string \<Rightarrow> bool" where
  "exMatch re p = (take (length re) p = re)"

definition exCompile :: "string \<Rightarrow> string option" where
  "exCompile r = (if r = ''('' then None else Some r)"

definition exUnmarshal :: "string \<Rightarrow> Acl list option" where
  "exUnmarshal s =
     (if s = ''A'' then Some [\<lparr>Predicate = ''name'', Regex = [], Perm = 4\<rparr>,
                               \<lparr>Predicate = [], Regex = ''('', Perm = 4\<rparr>]
      else if s = ''B'' then Some [\<lparr>Predicate = ''name'', Regex = [], Perm = 4\<rparr>]
      else None)"

definition exCache :: "string aclCache" where
  "exCache = \<lparr>predPerms = [''name'' \<mapsto> [''dev'' \<mapsto> 4]],
              predRegexRules = [\<lparr>predRegex = ''user'', groupPerms = [''dev'' \<mapsto> 2]\<rparr>]\<rparr>"

definition exRead :: Operation where
  "exRead = \<lparr>Code = 4, Name = ''Read''\<rparr>"

section \<open>The bulk loader (package main)\<close>

subsection \<open>Configuration and the outside world\<close>

text \<open>
  Paths of directories and run files are kept as lists of path components (a path after
  \<open>filepath.Clean\<close>); \<open>rdfFile\<close> and \<open>schemaFile\<close> stay strings, since the code inspects the
  suffix of \<open>rdfFile\<close>.
\<close>

type_synonym path = "string list"

record options =
  rdfFile :: string
  schemaFile :: string
  badgerDir :: path
  tmpDir :: path
  numGoroutines :: int

text \<open>
  A byte stream as a reader sees it: the bytes it delivers, and whether reading ends with
  an error instead of end-of-file.
\<close>

type_synonym stream = "string \<times> bool"

text \<open>
  What the loader calls outside the two source files. Library calls: \<open>ioutil.ReadFile\<close>,
  \<open>ioutil.TempDir\<close>, \<open>os.Open\<close>, \<open>gzip.NewReader\<close> (\<open>None\<close> is a non-nil error), \<open>bufio.Scanner\<close>
  (all the tokens \<open>Scan\<close>/\<open>Text\<close> deliver, and whether \<open>Err\<close> is non-nil afterwards),
  \<open>os.RemoveAll\<close> (whether it returns an error). Other packages and files of the
  repository, by their interface: \<open>schema.Parse\<close>, the record transformer a mapper calls,
  the run paths \<open>writeMapOutput\<close> returns for the postings it received, the batches
  \<open>shufflePostings\<close> emits for a list of runs, and whether a call of \<open>reduce\<close> returns
  (\<open>False\<close>: it panics or exits the process).
\<close>

record 'p env =
  readFile :: "string \<Rightarrow> string option"
  schemaParse :: "string \<Rightarrow> bool"
  tempDir :: "path \<Rightarrow> string \<Rightarrow> path option"
  openFile :: "string \<Rightarrow> stream option"
  gzipNewReader :: "stream \<Rightarrow> stream option"
  scanner :: "stream \<Rightarrow> string list \<times> bool"
  removeAllFails :: "path \<Rightarrow> bool"
  transformer :: "string \<Rightarrow> 'p list"
  writeRuns :: "path \<Rightarrow> 'p list \<Rightarrow> path list"
  shuffleBatches :: "path list \<Rightarrow> 'p list list"
  reduceReturns :: "'p list \<Rightarrow> bool"

text \<open>\<open>strings.HasSuffix\<close>, as the Go library defines it.\<close>

definition HasSuffix :: "string \<Rightarrow> string \<Rightarrow> bool" where
  "HasSuffix s suf =
     (length s \<ge> length suf \<and> drop (length s - length suf) s = suf)"

text \<open>
  Lines 91 to 98 of \<open>mapStage\<close>: the scanner over the opened file. The first component
  of the result tells whether the stream was wrapped in a gzip reader; \<open>None\<close> is the
  failure of \<open>gzip.NewReader\<close>.
\<close>

definition sourceScanner ::
  "'p env \<Rightarrow> options \<Rightarrow> stream \<Rightarrow> (bool \<times> string list \<times> bool) option" where
  "sourceScanner e opt f =
     (if \<not> HasSuffix (rdfFile opt) ''.gz'' then Some (False, scanner e f)
      else (case gzipNewReader e f of
              None \<Rightarrow> None
            | Some gzr \<Rightarrow> Some (True, scanner e gzr)))"

definition sourceRecords :: "'p env \<Rightarrow> options \<Rightarrow> (string list \<times> bool) option" where
  "sourceRecords e opt =
     (case openFile e (rdfFile opt) of
        None \<Rightarrow> None
      | Some f \<Rightarrow> map_option snd (sourceScanner e opt f))"

subsection \<open>Threads and the loader state\<close>

datatype tid = TMain | TWriter | TMapper nat | TShuffle | TReducer nat

text \<open>The program counter of \<open>mapStage\<close>: the statement the main goroutine executes next.\<close>

datatype map_pc =
    PTempDir | PGoWriter | POpen | PAddMappers | PGoMappers nat | PScanner
  | PFeed | PCheckErr | PCloseRdf | PWaitMappers | PClosePostings | PWaitWriter | PReturn

fun pcRank :: "map_pc \<Rightarrow> nat" where
  "pcRank PTempDir = 0"
| "pcRank PGoWriter = 1"
| "pcRank POpen = 2"
| "pcRank PAddMappers = 3"
| "pcRank (PGoMappers i) = 4"
| "pcRank PScanner = 5"
| "pcRank PFeed = 6"
| "pcRank PCheckErr = 7"
| "pcRank PCloseRdf = 8"
| "pcRank PWaitMappers = 9"
| "pcRank PClosePostings = 10"
| "pcRank PWaitWriter = 11"
| "pcRank PReturn = 12"

text \<open>
  A mapper goroutine. \<open>MIdle\<close>: created by \<open>newLoader\<close>, not started; \<open>MRecv\<close>: waiting for
  a record; \<open>MSend ps\<close>: the postings of the last record still to be sent; \<open>MExit\<close>:
  \<open>run\<close> has returned and \<open>mapperWg.Done\<close> was called. \<open>observed\<close> lists the records this
  mapper has received.
\<close>

datatype 'p mapper_pc = MIdle | MRecv | MSend "'p list" | MExit

record 'p mapper =
  mpc :: "'p mapper_pc"
  observed :: "string list"

text \<open>
  The loader with the state of \<open>mapStage\<close>: the fields of \<open>state\<close> and \<open>loader\<close> the stages
  use, both channels with their closed flags, the two wait groups, the goroutines, and
  \<open>fatal\<close>, set when \<open>x.Check\<close>/\<open>x.Checkf\<close> ends the process (or a goroutine panics).
  \<open>enqueued\<close> lists the records sent on \<open>rdfCh\<close> so far; \<open>received\<close> the postings the
  writer has taken from \<open>postingsCh\<close>.
\<close>

record 'p loader =
  opt :: options
  mappers :: "'p mapper list"
  mapOutput :: "path list"
  rdfCh :: "string list"
  rdfClosed :: bool
  postingsCh :: "'p list"
  postingsClosed :: bool
  pc :: map_pc
  fatal :: "string option"
  tmpPostingsDir :: path
  postingWriterWg :: nat
  mapperWg :: nat
  writerStarted :: bool
  writerDone :: bool
  received :: "'p list"
  rdfStream :: stream
  src :: "string list"
  srcErr :: bool
  enqueued :: "string list"

text \<open>
  \<open>newLoader\<close>. Reading or parsing the schema may fail (\<open>x.Checkf\<close>); \<open>make\<close> panics on a
  negative length. Both channels have capacity 1000.
\<close>

definition chanCap :: nat where
  "chanCap = 1000"

definition newLoader :: "'p env \<Rightarrow> options \<Rightarrow> error + 'p loader" where
  "newLoader e op =
     (case readFile e (schemaFile op) of
        None \<Rightarrow> Inl (Fatal ''Could not load schema.'')
      | Some schemaBuf \<Rightarrow>
          if \<not> schemaParse e schemaBuf then Inl (Fatal ''Could not parse schema.'')
          else if numGoroutines op < 0 then Inl (Fatal ''makeslice: len out of range'')
          else Inr \<lparr>opt = op,
                    mappers = replicate (nat (numGoroutines op)) \<lparr>mpc = MIdle, observed = []\<rparr>,
                    mapOutput = [], rdfCh = [], rdfClosed = False,
                    postingsCh = [], postingsClosed = False,
                    pc = PTempDir, fatal = None, tmpPostingsDir = [],
                    postingWriterWg = 0, mapperWg = 0,
                    writerStarted = False, writerDone = False, received = [],
                    rdfStream = ([], False), src = [], srcErr = False, enqueued = []\<rparr>)"

subsection \<open>mapStage\<close>

text \<open>
  One step of the main goroutine in \<open>mapStage\<close>; \<open>None\<close> when it is blocked (a full
  channel, a wait group that is not zero) or has returned. The first step is
  \<open>postingWriterWg.Add(1)\<close> with \<open>ioutil.TempDir\<close> (lines 67 to 71); then come the \<open>go\<close>
  statement of the writer, \<open>os.Open\<close>, \<open>mapperWg.Add\<close>, one \<open>go\<close> statement per mapper,
  the scanner, the loop that feeds \<open>rdfCh\<close>, the check of \<open>sc.Err\<close>, and the four
  closing statements. The progress reporter (line 65) and \<open>f.Close\<close> are left out.
\<close>

definition mainStep :: "'p env \<Rightarrow> 'p loader \<Rightarrow> 'p loader option" where
  "mainStep e s =
     (case pc s of
        PTempDir \<Rightarrow>
          (case tempDir e (tmpDir (opt s)) ''bulkloader_tmp_posting_'' of
             None \<Rightarrow> Some (s\<lparr>postingWriterWg := postingWriterWg s + 1,
                              fatal := Some ''TempDir''\<rparr>)
           | Some d \<Rightarrow> Some (s\<lparr>postingWriterWg := postingWriterWg s + 1,
                                tmpPostingsDir := d, pc := PGoWriter\<rparr>))
      | PGoWriter \<Rightarrow> Some (s\<lparr>writerStarted := True, pc := POpen\<rparr>)
      | POpen \<Rightarrow>
          (case openFile e (rdfFile (opt s)) of
             None \<Rightarrow> Some (s\<lparr>fatal := Some ''Could not read RDF file.''\<rparr>)
           | Some f \<Rightarrow> Some (s\<lparr>rdfStream := f, pc := PAddMappers\<rparr>))
      | PAddMappers \<Rightarrow>
          Some (s\<lparr>mapperWg := mapperWg s + length (mappers s), pc := PGoMappers 0\<rparr>)
      | PGoMappers i \<Rightarrow>
          if i < length (mappers s)
          then Some (s\<lparr>mappers := (mappers s)[i := (mappers s ! i)\<lparr>mpc := MRecv\<rparr>],
                        pc := PGoMappers (Suc i)\<rparr>)
          else Some (s\<lparr>pc := PScanner\<rparr>)
      | PScanner \<Rightarrow>
          (case sourceScanner e (opt s) (rdfStream s) of
             None \<Rightarrow> Some (s\<lparr>fatal := Some ''Could not create gzip reader for RDF file.''\<rparr>)
           | Some (gz, toks, err) \<Rightarrow> Some (s\<lparr>src := toks, srcErr := err, pc := PFeed\<rparr>))
      | PFeed \<Rightarrow>
          (case src s of
             [] \<Rightarrow> Some (s\<lparr>pc := PCheckErr\<rparr>)
           | l # ls \<Rightarrow>
               if length (rdfCh s) < chanCap
               then Some (s\<lparr>rdfCh := rdfCh s @ [l], src := ls, enqueued := enqueued s @ [l]\<rparr>)
               else None)
      | PCheckErr \<Rightarrow>
          if srcErr s then Some (s\<lparr>fatal := Some ''Scanner''\<rparr>)
          else Some (s\<lparr>pc := PCloseRdf\<rparr>)
      | PCloseRdf \<Rightarrow> Some (s\<lparr>rdfClosed := True, pc := PWaitMappers\<rparr>)
      | PWaitMappers \<Rightarrow> if mapperWg s = 0 then Some (s\<lparr>pc := PClosePostings\<rparr>) else None
      | PClosePostings \<Rightarrow> Some (s\<lparr>postingsClosed := True, pc := PWaitWriter\<rparr>)
      | PWaitWriter \<Rightarrow> if postingWriterWg s = 0 then Some (s\<lparr>pc := PReturn\<rparr>) else None
      | PReturn \<Rightarrow> None)"

text \<open>
  Modelled from the spec: \<open>mapper.run\<close> is not in the source files. Section 4.2: each
  worker repeatedly dequeues one record, blocking while the input queue is empty;
  terminates if the queue is closed and empty; otherwise invokes the record transformer
  and enqueues each posting candidate onto the output queue, blocking while it is full.
  The goroutine of \<open>mapStage\<close> then calls \<open>mapperWg.Done\<close>. A send on a closed channel
  panics.
\<close>

definition mapperStep :: "'p env \<Rightarrow> nat \<Rightarrow> 'p loader \<Rightarrow> 'p loader option" where
  "mapperStep e i s =
     (if i < length (mappers s) then
        (let m = mappers s ! i in
         case mpc m of
           MIdle \<Rightarrow> None
         | MRecv \<Rightarrow>
             (case rdfCh s of
                l # ls \<Rightarrow>
                  Some (s\<lparr>rdfCh := ls,
                          mappers := (mappers s)[i := \<lparr>mpc = MSend (transformer e l),
                                                      observed = observed m @ [l]\<rparr>]\<rparr>)
              | [] \<Rightarrow>
                  if rdfClosed s
                  then Some (s\<lparr>mappers := (mappers s)[i := m\<lparr>mpc := MExit\<rparr>],
                                mapperWg := mapperWg s - 1\<rparr>)
                  else None)
         | MSend [] \<Rightarrow> Some (s\<lparr>mappers := (mappers s)[i := m\<lparr>mpc := MRecv\<rparr>]\<rparr>)
         | MSend (p # ps) \<Rightarrow>
             if postingsClosed s then Some (s\<lparr>fatal := Some ''send on closed channel''\<rparr>)
             else if length (postingsCh s) < chanCap
             then Some (s\<lparr>postingsCh := postingsCh s @ [p],
                           mappers := (mappers s)[i := m\<lparr>mpc := MSend ps\<rparr>]\<rparr>)
             else None
         | MExit \<Rightarrow> None)
      else None)"

text \<open>
  Modelled from the spec: \<open>writeMapOutput\<close> is not in the source files. Section 4.3: a
  single worker drains the posting-candidate queue until it is closed and empty and
  returns the list of run paths. The goroutine of \<open>mapStage\<close> stores the list in
  \<open>mapOutput\<close> and calls \<open>postingWriterWg.Done\<close>.
\<close>

definition writerStep :: "'p env \<Rightarrow> 'p loader \<Rightarrow> 'p loader option" where
  "writerStep e s =
     (if writerStarted s \<and> \<not> writerDone s then
        (case postingsCh s of
           p # ps \<Rightarrow> Some (s\<lparr>postingsCh := ps, received := received s @ [p]\<rparr>)
         | [] \<Rightarrow>
             if postingsClosed s
             then Some (s\<lparr>mapOutput := writeRuns e (tmpPostingsDir s) (received s),
                           writerDone := True,
                           postingWriterWg := postingWriterWg s - 1\<rparr>)
             else None)
      else None)"

text \<open>One step of the thread \<open>t\<close>. After a fatal error the process is gone.\<close>

definition mapStep :: "'p env \<Rightarrow> tid \<Rightarrow> 'p loader \<Rightarrow> 'p loader option" where
  "mapStep e t s =
     (if fatal s \<noteq> None then None
      else (case t of
              TMain \<Rightarrow> mainStep e s
            | TWriter \<Rightarrow> writerStep e s
            | TMapper i \<Rightarrow> mapperStep e i s
            | TShuffle \<Rightarrow> None
            | TReducer i \<Rightarrow> None))"

text \<open>
  A schedule is the list of threads the scheduler picks, in order; picking a thread that
  cannot move leaves the state as it is.
\<close>

definition mapRun :: "'p env \<Rightarrow> tid list \<Rightarrow> 'p loader \<Rightarrow> 'p loader" where
  "mapRun e sched s =
     foldl (\<lambda>s t. case mapStep e t s of None \<Rightarrow> s | Some s' \<Rightarrow> s') s sched"

subsection \<open>Invariants of mapStage\<close>

definition exitedCount :: "'p mapper list \<Rightarrow> nat" where
  "exitedCount ms = length (filter (\<lambda>m. mpc m = MExit) ms)"

text \<open>All the records the mappers have received, as a multiset.\<close>

definition observedAll :: "'p mapper list \<Rightarrow> string multiset" where
  "observedAll ms = sum_list (map (\<lambda>m. mset (observed m)) ms)"

text \<open>Where the main goroutine stands, against the flags of the channels and the writer.\<close>

definition invCtl :: "'p loader \<Rightarrow> bool" where
  "invCtl s =
     ((rdfClosed s \<longleftrightarrow> 9 \<le> pcRank (pc s)) \<and>
      (postingsClosed s \<longleftrightarrow> 11 \<le> pcRank (pc s)) \<and>
      (writerStarted s \<longleftrightarrow> 2 \<le> pcRank (pc s)) \<and>
      (7 \<le> pcRank (pc s) \<longrightarrow> src s = []) \<and>
      (8 \<le> pcRank (pc s) \<longrightarrow> \<not> srcErr s) \<and>
      (writerDone s \<longrightarrow> postingsClosed s) \<and>
      postingWriterWg s =
        (if writerDone s then 0 else if pc s = PTempDir \<and> fatal s = None then 0 else 1) \<and>
      (pc s = PReturn \<longrightarrow> writerDone s))"

text \<open>Which mapper goroutines have been started.\<close>

definition invIdle :: "'p loader \<Rightarrow> bool" where
  "invIdle s =
     ((pcRank (pc s) \<le> 3 \<longrightarrow> (\<forall>j < length (mappers s). mpc (mappers s ! j) = MIdle)) \<and>
      (\<forall>i. pc s = PGoMappers i \<longrightarrow>
         i \<le> length (mappers s) \<and>
         (\<forall>j < length (mappers s). mpc (mappers s ! j) = MIdle \<longleftrightarrow> i \<le> j)) \<and>
      (5 \<le> pcRank (pc s) \<longrightarrow> (\<forall>j < length (mappers s). mpc (mappers s ! j) \<noteq> MIdle)))"

text \<open>The wait group of the mappers counts the mappers that have not exited.\<close>

definition invWg :: "'p loader \<Rightarrow> bool" where
  "invWg s =
     ((pcRank (pc s) \<le> 3 \<longrightarrow> mapperWg s = 0) \<and>
      (4 \<le> pcRank (pc s) \<longrightarrow>
         mapperWg s + exitedCount (mappers s) = length (mappers s)))"

text \<open>
  A mapper exits only when the input queue is closed and empty, and the main goroutine
  passes \<open>mapperWg.Wait\<close> only when every mapper has exited.
\<close>

definition invExit :: "'p loader \<Rightarrow> bool" where
  "invExit s =
     (((\<exists>j < length (mappers s). mpc (mappers s ! j) = MExit) \<longrightarrow>
         rdfClosed s \<and> rdfCh s = []) \<and>
      (10 \<le> pcRank (pc s) \<longrightarrow> (\<forall>j < length (mappers s). mpc (mappers s ! j) = MExit)))"

definition invMappers :: "'p loader \<Rightarrow> bool" where
  "invMappers s = (invIdle s \<and> invWg s \<and> invExit s)"

text \<open>The records: none is lost and none is made up.\<close>

definition invData :: "'p env \<Rightarrow> 'p loader \<Rightarrow> bool" where
  "invData e s =
     (mset (enqueued s) = mset (rdfCh s) + observedAll (mappers s) \<and>
      (pcRank (pc s) \<le> 5 \<longrightarrow> enqueued s = [] \<and> src s = []) \<and>
      (3 \<le> pcRank (pc s) \<longrightarrow> openFile e (rdfFile (opt s)) = Some (rdfStream s)) \<and>
      (6 \<le> pcRank (pc s) \<longrightarrow>
         map_option snd (sourceScanner e (opt s) (rdfStream s))
           = Some (enqueued s @ src s, srcErr s)))"

text \<open>Which statement of \<open>mapStage\<close> a fatal error comes from.\<close>

definition invFatal :: "'p env \<Rightarrow> 'p loader \<Rightarrow> bool" where
  "invFatal e s =
     (\<forall>msg. fatal s = Some msg \<longrightarrow>
        (msg = ''TempDir'' \<and> pc s = PTempDir) \<or>
        (msg = ''Could not read RDF file.'' \<and> pc s = POpen \<and>
           openFile e (rdfFile (opt s)) = None) \<or>
        (msg = ''Could not create gzip reader for RDF file.'' \<and> pc s = PScanner \<and>
           sourceScanner e (opt s) (rdfStream s) = None) \<or>
        (msg = ''Scanner'' \<and> pc s = PCheckErr \<and> srcErr s))"

definition mapInv :: "'p env \<Rightarrow> 'p loader \<Rightarrow> bool" where
  "mapInv e s = (invCtl s \<and> invMappers s \<and> invData e s \<and> invFatal e s)"

text \<open>The run list is the one the writer returned.\<close>

definition invOut :: "'p env \<Rightarrow> 'p loader \<Rightarrow> bool" where
  "invOut e s =
     (if writerDone s then mapOutput s = writeRuns e (tmpPostingsDir s) (received s)
      else mapOutput s = [])"

subsection \<open>The work that is left in mapStage\<close>

text \<open>
  A count of the steps still to be made. A record in the input queue is received, each
  of its postings is sent by the mapper and received by the writer, and the mapper
  returns to the receive; a line of the source is first sent on the input queue. A
  mapper that has not exited makes its last step when the queue is closed and empty.
\<close>

definition recWork :: "'p env \<Rightarrow> string \<Rightarrow> nat" where
  "recWork e l = 2 + 2 * length (transformer e l)"

fun mapperWork :: "'p mapper_pc \<Rightarrow> nat" where
  "mapperWork MIdle = 1"
| "mapperWork MRecv = 1"
| "mapperWork (MSend ps) = 2 * length ps + 2"
| "mapperWork MExit = 0"

fun mainWork :: "nat \<Rightarrow> map_pc \<Rightarrow> nat" where
  "mainWork n PTempDir = 12 + n"
| "mainWork n PGoWriter = 11 + n"
| "mainWork n POpen = 10 + n"
| "mainWork n PAddMappers = 9 + n"
| "mainWork n (PGoMappers i) = 8 + (n - i)"
| "mainWork n PScanner = 7"
| "mainWork n PFeed = 6"
| "mainWork n PCheckErr = 5"
| "mainWork n PCloseRdf = 4"
| "mainWork n PWaitMappers = 3"
| "mainWork n PClosePostings = 2"
| "mainWork n PWaitWriter = 1"
| "mainWork n PReturn = 0"

text \<open>The lines not yet sent: those of the source before the scanner exists, \<open>src\<close> after.\<close>

definition pendingLines :: "'p env \<Rightarrow> 'p loader \<Rightarrow> string list" where
  "pendingLines e s =
     (if pcRank (pc s) \<le> 5
      then (case sourceRecords e (opt s) of None \<Rightarrow> [] | Some (toks, err) \<Rightarrow> toks)
      else src s)"

definition mapWork :: "'p env \<Rightarrow> 'p loader \<Rightarrow> nat" where
  "mapWork e s =
     mainWork (length (mappers s)) (pc s)
     + sum_list (map (\<lambda>l. 1 + recWork e l) (pendingLines e s))
     + sum_list (map (recWork e) (rdfCh s))
     + sum_list (map (\<lambda>m. mapperWork (mpc m)) (mappers s))
     + length (postingsCh s)
     + (if writerDone s then 0 else 1)"

text \<open>The number of picks of a schedule that move a goroutine.\<close>

fun mapMoves :: "'p env \<Rightarrow> tid list \<Rightarrow> 'p loader \<Rightarrow> nat" where
  "mapMoves e [] s = 0"
| "mapMoves e (t # ts) s =
     (case mapStep e t s of
        None \<Rightarrow> mapMoves e ts s
      | Some s' \<Rightarrow> Suc (mapMoves e ts s'))"

subsection \<open>reduceStage\<close>

text \<open>The program counter of \<open>reduceStage\<close>.\<close>

datatype reduce_pc = RStart | RRange | RAcquire | RSpawn | RWait | REnd

text \<open>
  A reducer goroutine (lines 129 to 133). \<open>WReduce\<close>: started, its call of \<open>reduce\<close>
  has not returned yet; \<open>WRelease\<close>: \<open>reduce\<close> has returned, about to receive from
  \<open>pending\<close>; \<open>WDone\<close>: the token is released, about to call \<open>reduceWg.Done\<close>;
  \<open>WExit\<close>: finished; \<open>WPanic\<close>: \<open>reduce\<close> did not return.
\<close>

datatype worker_pc = WReduce | WRelease | WDone | WExit | WPanic

text \<open>
  The state of \<open>reduceStage\<close>. \<open>pending\<close> is the number of tokens in the channel
  \<open>pending\<close>, whose capacity is \<open>width\<close> (\<open>numGoroutines\<close>); \<open>batch\<close> is the loop variable,
  which the goroutines share (the closure captures the variable, and before Go 1.22 a
  \<open>range\<close> loop has one variable for all iterations). \<open>toSend\<close> are the batches the
  shuffler has still to send, \<open>emitted\<close> counts those it has sent. \<open>crashed\<close> is set
  when the process dies.
\<close>

record 'p reducer =
  rpc :: reduce_pc
  width :: nat
  batch :: "'p list"
  toSend :: "'p list list"
  emitted :: nat
  shuffleStarted :: bool
  reduceCh :: "'p list list"
  reduceClosed :: bool
  pending :: nat
  reduceWg :: nat
  workers :: "worker_pc list"
  crashed :: bool

text \<open>The batch queue has capacity 3 (line 120).\<close>

definition reduceChCap :: nat where
  "reduceChCap = 3"

text \<open>
  Entering \<open>reduceStage\<close> with the run list \<open>mapOutput\<close>. The readers of the runs and the
  shuffler are folded into one thread, which sends the batches
  \<open>shuffleBatches e (mapOutput ld)\<close>.
\<close>

definition reduceInit :: "'p env \<Rightarrow> 'p loader \<Rightarrow> 'p reducer" where
  "reduceInit e ld =
     \<lparr>rpc = RStart, width = nat (numGoroutines (opt ld)), batch = [],
      toSend = shuffleBatches e (mapOutput ld), emitted = 0, shuffleStarted = False,
      reduceCh = [], reduceClosed = False, pending = 0, reduceWg = 0, workers = [],
      crashed = False\<rparr>"

text \<open>
  One step of the main goroutine in \<open>reduceStage\<close>. The send on \<open>pending\<close> goes through
  when the channel holds fewer than \<open>width\<close> tokens; with \<open>width = 0\<close> the channel is
  unbuffered and the send needs a receiver, which can only be a reducer goroutine, and
  none exists before the first send has gone through.
\<close>

definition reduceMainStep :: "'p reducer \<Rightarrow> 'p reducer option" where
  "reduceMainStep s =
     (case rpc s of
        RStart \<Rightarrow> Some (s\<lparr>shuffleStarted := True, rpc := RRange\<rparr>)
      | RRange \<Rightarrow>
          (case reduceCh s of
             b # bs \<Rightarrow> Some (s\<lparr>batch := b, reduceCh := bs, rpc := RAcquire\<rparr>)
           | [] \<Rightarrow> if reduceClosed s then Some (s\<lparr>rpc := RWait\<rparr>) else None)
      | RAcquire \<Rightarrow>
          if pending s < width s then Some (s\<lparr>pending := pending s + 1, rpc := RSpawn\<rparr>)
          else None
      | RSpawn \<Rightarrow>
          Some (s\<lparr>reduceWg := reduceWg s + 1, workers := workers s @ [WReduce],
                  rpc := RRange\<rparr>)
      | RWait \<Rightarrow> if reduceWg s = 0 then Some (s\<lparr>rpc := REnd\<rparr>) else None
      | REnd \<Rightarrow> None)"

text \<open>
  Modelled from the spec: \<open>shufflePostings\<close> and \<open>readMapOutput\<close> are not in the source
  files. Section 4.4: the merger emits completed batches onto the batch queue, whose
  small capacity makes its send block; the reduce phase drains the queue to its end, so
  the merger closes the queue after the last batch.
\<close>

definition shuffleStep :: "'p reducer \<Rightarrow> 'p reducer option" where
  "shuffleStep s =
     (if shuffleStarted s \<and> \<not> reduceClosed s then
        (case toSend s of
           b # bs \<Rightarrow>
             if length (reduceCh s) < reduceChCap
             then Some (s\<lparr>reduceCh := reduceCh s @ [b], toSend := bs,
                           emitted := emitted s + 1\<rparr>)
             else None
         | [] \<Rightarrow> Some (s\<lparr>reduceClosed := True\<rparr>))
      else None)"

text \<open>
  One step of the reducer goroutine \<open>i\<close>. \<open>reduce\<close> is not in the source files; it
  either returns or does not (\<open>reduceReturns\<close>), and a call that panics or exits takes
  the process down, since the goroutine neither defers the release nor recovers.
\<close>

definition workerStep :: "'p env \<Rightarrow> nat \<Rightarrow> 'p reducer \<Rightarrow> 'p reducer option" where
  "workerStep e i s =
     (if i < length (workers s) then
        (case workers s ! i of
           WReduce \<Rightarrow>
             if reduceReturns e (batch s)
             then Some (s\<lparr>workers := (workers s)[i := WRelease]\<rparr>)
             else Some (s\<lparr>workers := (workers s)[i := WPanic], crashed := True\<rparr>)
         | WRelease \<Rightarrow>
             if 0 < pending s
             then Some (s\<lparr>pending := pending s - 1, workers := (workers s)[i := WDone]\<rparr>)
             else None
         | WDone \<Rightarrow>
             Some (s\<lparr>reduceWg := reduceWg s - 1, workers := (workers s)[i := WExit]\<rparr>)
         | WExit \<Rightarrow> None
         | WPanic \<Rightarrow> None)
      else None)"

definition reduceStep :: "'p env \<Rightarrow> tid \<Rightarrow> 'p reducer \<Rightarrow> 'p reducer option" where
  "reduceStep e t s =
     (if crashed s then None
      else (case t of
              TMain \<Rightarrow> reduceMainStep s
            | TShuffle \<Rightarrow> shuffleStep s
            | TReducer i \<Rightarrow> workerStep e i s
            | TWriter \<Rightarrow> None
            | TMapper i \<Rightarrow> None))"

definition reduceRun :: "'p env \<Rightarrow> tid list \<Rightarrow> 'p reducer \<Rightarrow> 'p reducer" where
  "reduceRun e sched s =
     foldl (\<lambda>s t. case reduceStep e t s of None \<Rightarrow> s | Some s' \<Rightarrow> s') s sched"

text \<open>
  Counting reducer goroutines: those whose call of \<open>reduce\<close> has not returned (the
  calls in progress are among them), those that hold a token (they have not passed the
  receive from \<open>pending\<close>), and those whose call of \<open>reduce\<close> has returned.
\<close>

definition activeCount :: "worker_pc list \<Rightarrow> nat" where
  "activeCount ws = length (filter (\<lambda>w. w = WReduce) ws)"

definition holderCount :: "worker_pc list \<Rightarrow> nat" where
  "holderCount ws = length (filter (\<lambda>w. w = WReduce \<or> w = WRelease \<or> w = WPanic) ws)"

definition reducedCount :: "worker_pc list \<Rightarrow> nat" where
  "reducedCount ws = length (filter (\<lambda>w. w = WRelease \<or> w = WDone \<or> w = WExit) ws)"

definition reduceInv :: "'p reducer \<Rightarrow> bool" where
  "reduceInv s =
     (pending s = holderCount (workers s) + (if rpc s = RSpawn then 1 else 0) \<and>
      pending s \<le> width s \<and>
      length (reduceCh s) \<le> reduceChCap \<and>
      emitted s = length (reduceCh s) + (if rpc s = RAcquire \<or> rpc s = RSpawn then 1 else 0)
                  + length (workers s))"

subsection \<open>The orchestrator\<close>

text \<open>
  Modelled from the spec: the function that calls \<open>newLoader\<close>, \<open>mapStage\<close>, \<open>reduceStage\<close>
  and \<open>cleanup\<close> is not in the source files. Sections 2 and 4.6: the orchestrator runs the
  map phase to completion, then the reduce phase; no phase is entered before the
  previous phase has returned. The step of the main goroutine that follows the return
  of \<open>mapStage\<close> enters \<open>reduceStage\<close>.
\<close>

datatype 'p phase = Mapping "'p loader" | Reducing "'p loader" "'p reducer"

definition loaderStep :: "'p env \<Rightarrow> tid \<Rightarrow> 'p phase \<Rightarrow> 'p phase option" where
  "loaderStep e t ph =
     (case ph of
        Mapping s \<Rightarrow>
          if t = TMain \<and> pc s = PReturn \<and> fatal s = None
          then Some (Reducing s (reduceInit e s))
          else map_option Mapping (mapStep e t s)
      | Reducing s r \<Rightarrow> map_option (Reducing s) (reduceStep e t r))"

definition loaderRun :: "'p env \<Rightarrow> tid list \<Rightarrow> 'p phase \<Rightarrow> 'p phase" where
  "loaderRun e sched ph =
     foldl (\<lambda>ph t. case loaderStep e t ph of None \<Rightarrow> ph | Some ph' \<Rightarrow> ph') ph sched"

subsection \<open>cleanup\<close>

text \<open>
  The file system is the set of the paths that exist. \<open>filepath.Dir\<close> drops the last
  component of a path; \<open>os.RemoveAll\<close> removes a path and everything below it.
\<close>

definition filepathDir :: "path \<Rightarrow> path" where
  "filepathDir p = butlast p"

definition RemoveAll :: "path \<Rightarrow> path set \<Rightarrow> path set" where
  "RemoveAll d fs = {p \<in> fs. \<not> prefix d p}"

definition cleanup :: "'p env \<Rightarrow> 'p loader \<Rightarrow> path set \<Rightarrow> error + path set" where
  "cleanup e ld fs =
     (if length (mapOutput ld) > 0 then
        (let dir = filepathDir (mapOutput ld ! 0)
         in if removeAllFails e dir then Inl (Fatal ''RemoveAll'')
            else Inr (RemoveAll dir fs))
      else Inr fs)"

text \<open>The process has crashed exactly when a call of \<open>reduce\<close> did not return.\<close>

definition invCrash :: "'p reducer \<Rightarrow> bool" where
  "invCrash s = (crashed s \<longleftrightarrow> (\<exists>i < length (workers s). workers s ! i = WPanic))"

text \<open>The state of the map stage in either phase, and what holds of it in every phase.\<close>

fun mapOf :: "'p phase \<Rightarrow> 'p loader" where
  "mapOf (Mapping s) = s"
| "mapOf (Reducing s r) = s"

definition phaseInv :: "'p env \<Rightarrow> options \<Rightarrow> 'p phase \<Rightarrow> bool" where
  "phaseInv e op ph =
     (mapInv e (mapOf ph) \<and> invOut e (mapOf ph) \<and> opt (mapOf ph) = op \<and>
      (\<forall>s r. ph = Reducing s r \<longrightarrow> pc s = PReturn \<and> fatal s = None))"

subsection \<open>A small world, for concrete runs\<close>

text \<open>
  Two source files with the same two lines, \<open>data.rdf\<close> plain and \<open>data.rdf.gz\<close>
  compressed (the toy compression puts a \<open>Z\<close> in front), and \<open>bad.gz\<close>, which is not
  compressed. Postings are numbers: the transformer emits the length of the record.
\<close>

fun exSplitLines :: "string \<Rightarrow> string list" where
  "exSplitLines [] = []"
| "exSplitLines (c # cs) =
     (if c = CHR 0x0A then [] # exSplitLines cs
      else (case exSplitLines cs of [] \<Rightarrow> [[c]] | l # ls \<Rightarrow> (c # l) # ls))"

definition exContent :: string where
  "exContent = ''<a> <b> <c> .'' @ [CHR 0x0A] @ ''<d> <e> <f> .'' @ [CHR 0x0A]"

definition exEnv :: "nat env" where
  "exEnv = \<lparr>readFile = (\<lambda>p. if p = ''schema'' then Some ''name: string .'' else None),
            schemaParse = (\<lambda>b. True),
            tempDir = (\<lambda>d pre. Some (d @ [pre @ ''1''])),
            openFile = (\<lambda>p. if p = ''data.rdf'' \<or> p = ''bad.gz'' then Some (exContent, False)
                          else if p = ''data.rdf.gz'' then Some (CHR ''Z'' # exContent, False)
                          else None),
            gzipNewReader = (\<lambda>z. case fst z of [] \<Rightarrow> None
                                   | c # cs \<Rightarrow> if c = CHR ''Z'' then Some (cs, snd z) else None),
            scanner = (\<lambda>z. (exSplitLines (fst z), snd z)),
            removeAllFails = (\<lambda>p. False),
            transformer = (\<lambda>l. [length l]),
            writeRuns = (\<lambda>d ps. if ps = [] then [] else [d @ [''run0'']]),
            shuffleBatches = (\<lambda>rs. if rs = [] then [] else [[1], [2], [3], [4], [5], [6], [7]]),
            reduceReturns = (\<lambda>b. True)\<rparr>"

definition exOpt :: options where
  "exOpt = \<lparr>rdfFile = ''data.rdf'', schemaFile = ''schema'', badgerDir = [''out''],
            tmpDir = [''tmp''], numGoroutines = 2\<rparr>"

definition exInit :: "nat loader" where
  "exInit = \<lparr>opt = exOpt,
             mappers = [\<lparr>mpc = MIdle, observed = []\<rparr>, \<lparr>mpc = MIdle, observed = []\<rparr>],
             mapOutput = [], rdfCh = [], rdfClosed = False,
             postingsCh = [], postingsClosed = False,
             pc = PTempDir, fatal = None, tmpPostingsDir = [],
             postingWriterWg = 0, mapperWg = 0,
             writerStarted = False, writerDone = False, received = [],
             rdfStream = ([], False), src = [], srcErr = False, enqueued = []\<rparr>"

text \<open>
  A schedule that runs \<open>mapStage\<close> to its end: the main goroutine up to the close of the
  input queue, then the first mapper (both records), the second mapper, and the writer.
\<close>

definition exSched :: "tid list" where
  "exSched = replicate 13 TMain @ replicate 7 (TMapper 0) @ [TMapper 1]
             @ [TMain, TMain, TWriter, TWriter, TWriter, TMain]"

definition exFinal :: "nat loader" where
  "exFinal = \<lparr>opt = exOpt,
              mappers = [\<lparr>mpc = MExit, observed = [''<a> <b> <c> .'', ''<d> <e> <f> .'']\<rparr>,
                         \<lparr>mpc = MExit, observed = []\<rparr>],
              mapOutput = [[''tmp'', ''bulkloader_tmp_posting_1'', ''run0'']],
              rdfCh = [], rdfClosed = True, postingsCh = [], postingsClosed = True,
              pc = PReturn, fatal = None,
              tmpPostingsDir = [''tmp'', ''bulkloader_tmp_posting_1''],
              postingWriterWg = 0, mapperWg = 0, writerStarted = True,
              writerDone = True, received = [13, 13],
              rdfStream = (exContent, False), src = [],
              srcErr = False, enqueued = [''<a> <b> <c> .'', ''<d> <e> <f> .'']\<rparr>"

text \<open>The same run on a source that does not exist, and on the compressed source.\<close>

definition exOptMissing :: options where
  "exOptMissing = exOpt\<lparr>rdfFile := ''missing.rdf''\<rparr>"

definition exOptGz :: options where
  "exOptGz = exOpt\<lparr>rdfFile := ''data.rdf.gz''\<rparr>"

definition exOptBadGz :: options where
  "exOptBadGz = exOpt\<lparr>rdfFile := ''bad.gz''\<rparr>"

definition exOptNoSchema :: options where
  "exOptNoSchema = exOpt\<lparr>schemaFile := ''nope''\<rparr>"

definition exInitMissing :: "nat loader" where
  "exInitMissing = exInit\<lparr>opt := exOptMissing\<rparr>"

definition exInitBadGz :: "nat loader" where
  "exInitBadGz = exInit\<lparr>opt := exOptBadGz\<rparr>"

text \<open>
  Entering \<open>reduceStage\<close> after the concrete run of \<open>mapStage\<close>, with two tokens. The first
  schedule lets the shuffler run as far ahead as it can while both reducers are still
  inside \<open>reduce\<close>; the second lets one reducer finish. \<open>exEnvPanic\<close> is the same world
  with an aggregator that panics.
\<close>

definition exR0 :: "nat reducer" where
  "exR0 = reduceInit exEnv exFinal"

definition exSchedAhead :: "tid list" where
  "exSchedAhead = [TMain, TShuffle, TShuffle, TShuffle, TMain, TShuffle, TMain, TMain, TMain,
                   TShuffle, TMain, TMain, TMain, TShuffle, TMain, TShuffle, TShuffle]"

definition exSchedOne :: "tid list" where
  "exSchedOne = [TMain, TShuffle, TMain, TMain, TMain, TReducer 0, TReducer 0, TReducer 0]"

definition exEnvPanic :: "nat env" where
  "exEnvPanic = exEnv\<lparr>reduceReturns := (\<lambda>b. False)\<rparr>"

definition exSchedPanic :: "tid list" where
  "exSchedPanic = [TMain, TShuffle, TMain, TMain, TMain, TReducer 0]"

text \<open>A file system with the temporary directory of the concrete run and its run file.\<close>

definition exFs :: "path set" where
  "exFs = {[''tmp''], [''tmp'', ''bulkloader_tmp_posting_1''],
          [''tmp'', ''bulkloader_tmp_posting_1'', ''run0''], [''out'']}"

section \<open>Properties of the access-control cache\<close>

subsection \<open>authorizePredicate\<close>

lemma hasRequiredAccess_iff:
  "hasRequiredAccess gp groups operation \<longleftrightarrow>
     (\<exists>g \<in> set groups. \<exists>p. gp g = Some p \<and> p AND Code operation \<noteq> 0)"
  by (induction groups) (auto split: option.splits)

lemma regexRulesLoop_None_iff:
  "regexRulesLoop ms groups p operation rs m = None \<longleftrightarrow>
     (\<exists>r \<in> set rs. ms (predRegex r) p \<and> hasRequiredAccess (groupPerms r) groups operation)"
  by (induction rs arbitrary: m) auto

lemma regexRulesLoop_Some_iff:
  "regexRulesLoop ms groups p operation rs m = Some b \<Longrightarrow>
     b \<longleftrightarrow> (m \<or> (\<exists>r \<in> set rs. ms (predRegex r) p))"
  by (induction rs arbitrary: m) (auto split: if_splits)

text \<open>
  Claim C9. \<open>authorizePredicate\<close> returns an error for an ACL-reserved predicate whatever
  the caller's groups are. For any other predicate it returns \<open>nil\<close> when no
  exact-predicate rule and no regex rule matches the predicate (fail open), and it
  returns an error exactly when at least one rule matches the predicate and no matching
  rule grants the operation to one of the caller's groups.
\<close>

theorem authorizePredicate_fail_open:
  "(isAcl p \<longrightarrow> authorizePredicate isAcl ms c groups p operation = Some (OnlyGroot p)) \<and>
   (\<not> isAcl p \<and> predPerms c p = None \<and> (\<forall>r \<in> set (predRegexRules c). \<not> ms (predRegex r) p)
      \<longrightarrow> authorizePredicate isAcl ms c groups p operation = None) \<and>
   (\<not> isAcl p \<longrightarrow>
      (authorizePredicate isAcl ms c groups p operation \<noteq> None \<longleftrightarrow>
         (predPerms c p \<noteq> None \<or> (\<exists>r \<in> set (predRegexRules c). ms (predRegex r) p)) \<and>
         \<not> ((\<exists>gp. predPerms c p = Some gp \<and>
                 (\<exists>g \<in> set groups. \<exists>perm. gp g = Some perm \<and> perm AND Code operation \<noteq> 0)) \<or>
            (\<exists>r \<in> set (predRegexRules c). ms (predRegex r) p \<and>
                 (\<exists>g \<in> set groups. \<exists>perm. groupPerms r g = Some perm \<and>
                    perm AND Code operation \<noteq> 0)))))"
proof (intro conjI impI)
  assume "isAcl p"
  then show "authorizePredicate isAcl ms c groups p operation = Some (OnlyGroot p)"
    by (simp add: authorizePredicate_def)
next
  assume h: "\<not> isAcl p \<and> predPerms c p = None \<and>
             (\<forall>r \<in> set (predRegexRules c). \<not> ms (predRegex r) p)"
  obtain b where b: "regexRulesLoop ms groups p operation (predRegexRules c) False = Some b"
    using h regexRulesLoop_None_iff [of ms groups p operation "predRegexRules c" False]
    by (cases "regexRulesLoop ms groups p operation (predRegexRules c) False") auto
  with h regexRulesLoop_Some_iff [OF b] have "\<not> b" by simp
  with h b show "authorizePredicate isAcl ms c groups p operation = None"
    by (simp add: authorizePredicate_def)
next
  assume na: "\<not> isAcl p"
  let ?L = "regexRulesLoop ms groups p operation (predRegexRules c) False"
  show "authorizePredicate isAcl ms c groups p operation \<noteq> None \<longleftrightarrow>
         (predPerms c p \<noteq> None \<or> (\<exists>r \<in> set (predRegexRules c). ms (predRegex r) p)) \<and>
         \<not> ((\<exists>gp. predPerms c p = Some gp \<and>
                 (\<exists>g \<in> set groups. \<exists>perm. gp g = Some perm \<and> perm AND Code operation \<noteq> 0)) \<or>
            (\<exists>r \<in> set (predRegexRules c). ms (predRegex r) p \<and>
                 (\<exists>g \<in> set groups. \<exists>perm. groupPerms r g = Some perm \<and>
                    perm AND Code operation \<noteq> 0)))"
  proof (cases ?L)
    case None
    then show ?thesis
      using na regexRulesLoop_None_iff [of ms groups p operation "predRegexRules c" False]
      by (auto simp: authorizePredicate_def hasRequiredAccess_iff split: option.splits)
  next
    case (Some b)
    have nn: "\<not> (\<exists>r \<in> set (predRegexRules c). ms (predRegex r) p \<and>
                   hasRequiredAccess (groupPerms r) groups operation)"
      using Some regexRulesLoop_None_iff [of ms groups p operation "predRegexRules c" False]
      by simp
    show ?thesis
      using na Some regexRulesLoop_Some_iff [OF Some] nn
      by (auto simp: authorizePredicate_def hasRequiredAccess_iff split: option.splits)
  qed
qed

text \<open>
  On the small cache: the reserved predicate is refused, a predicate no rule mentions is
  allowed, and \<open>name\<close>, which has a rule for \<open>dev\<close> only, is refused to \<open>sre\<close>.
\<close>

theorem authorizePredicate_fail_open_witness:
  "exIsAcl ''dgraph.xid'' \<and>
   authorizePredicate exIsAcl exMatch exCache [''dev''] ''dgraph.xid'' exRead
     = Some (OnlyGroot ''dgraph.xid'') \<and>
   \<not> exIsAcl ''age'' \<and> predPerms exCache ''age'' = None \<and>
   authorizePredicate exIsAcl exMatch exCache [''sre''] ''age'' exRead = None \<and>
   \<not> exIsAcl ''name'' \<and> predPerms exCache ''name'' \<noteq> None \<and>
   authorizePredicate exIsAcl exMatch exCache [''sre''] ''name'' exRead \<noteq> None"
  using authorizePredicate_fail_open
          [of exIsAcl "''dgraph.xid''" exMatch exCache "[''dev'']" exRead]
        authorizePredicate_fail_open
          [of exIsAcl "''age''" exMatch exCache "[''sre'']" exRead]
        authorizePredicate_fail_open
          [of exIsAcl "''name''" exMatch exCache "[''sre'']" exRead]
  by (simp add: exIsAcl_def exMatch_def exCache_def exRead_def)

subsection \<open>update\<close>

lemma updateGroup_unmarshal_fails: "um (Acls g) = None \<Longrightarrow> updateGroup um rc acc g = acc"
  by (simp add: updateGroup_def)

lemma map_fst_regex_update:
  "map fst (map (\<lambda>(k, r). if k = x then (k, f r) else (k, r)) rp) = map fst rp"
  by (induction rp) auto

lemma updateAcl_compiled_keys:
  "compiled_keys rc (snd acc) \<Longrightarrow> compiled_keys rc (snd (updateAcl rc gid acc a))"
  unfolding compiled_keys_def updateAcl_def
  by (cases acc) (auto simp: map_fst_regex_update simp del: set_map map_map split: option.splits)

lemma foldl_updateAcl_compiled_keys:
  "compiled_keys rc (snd acc) \<Longrightarrow> compiled_keys rc (snd (foldl (updateAcl rc gid) acc as))"
  by (induction as arbitrary: acc) (simp_all add: updateAcl_compiled_keys)

lemma updateGroup_compiled_keys:
  "compiled_keys rc (snd acc) \<Longrightarrow> compiled_keys rc (snd (updateGroup um rc acc g))"
  by (auto simp: updateGroup_def foldl_updateAcl_compiled_keys split: option.splits)

lemma foldl_updateGroup_compiled_keys:
  "compiled_keys rc (snd acc) \<Longrightarrow> compiled_keys rc (snd (foldl (updateGroup um rc) acc gs))"
  by (induction gs arbitrary: acc) (simp_all add: updateGroup_compiled_keys)

text \<open>A rule whose regex does not compile leaves both local maps as they are.\<close>

lemma updateAcl_regex_fails:
  assumes "compiled_keys rc (snd acc)" "Predicate a = []" "rc (Regex a) = None"
  shows "updateAcl rc gid acc a = acc"
proof -
  obtain pp rp where acc: "acc = (pp, rp)" by (cases acc)
  have "map_of rp (Regex a) = None"
    using assms acc
    by (cases "map_of rp (Regex a)") (auto simp: compiled_keys_def dest!: map_of_SomeD)
  then show ?thesis using assms acc by (simp add: updateAcl_def)
qed

lemma updateGroup_regex_fails:
  assumes ck: "compiled_keys rc (snd acc)"
    and g: "um (Acls g) = Some (as1 @ a # as2)" and g': "um (Acls g') = Some (as1 @ as2)"
    and id: "GroupID g' = GroupID g"
    and a: "Predicate a = []" "rc (Regex a) = None"
  shows "updateGroup um rc acc g = updateGroup um rc acc g'"
proof -
  have "updateAcl rc (GroupID g) (foldl (updateAcl rc (GroupID g)) acc as1) a
          = foldl (updateAcl rc (GroupID g)) acc as1"
    using ck a by (intro updateAcl_regex_fails foldl_updateAcl_compiled_keys)
  then show ?thesis using g g' id by (simp add: updateGroup_def)
qed

text \<open>Where the rules of the new cache come from.\<close>

lemma updateAcl_dom:
  "fst (updateAcl rc gid acc a) p \<noteq> None \<Longrightarrow> fst acc p \<noteq> None \<or> (Predicate a = p \<and> p \<noteq> [])"
  by (cases acc) (auto simp: updateAcl_def split: option.splits if_splits)

lemma foldl_updateAcl_dom:
  "fst (foldl (updateAcl rc gid) acc as) p \<noteq> None \<Longrightarrow>
     fst acc p \<noteq> None \<or> (\<exists>a \<in> set as. Predicate a = p \<and> p \<noteq> [])"
proof (induction as arbitrary: acc)
  case Nil
  then show ?case by simp
next
  case (Cons a as)
  from Cons.IH [of "updateAcl rc gid acc a"] Cons.prems
  have "fst (updateAcl rc gid acc a) p \<noteq> None \<or> (\<exists>a \<in> set as. Predicate a = p \<and> p \<noteq> [])"
    by simp
  then show ?case using updateAcl_dom [of rc gid acc a p] by auto
qed

lemma foldl_updateGroup_dom:
  "fst (foldl (updateGroup um rc) acc gs) p \<noteq> None \<Longrightarrow> fst acc p \<noteq> None \<or> from_groups um gs p"
proof (induction gs arbitrary: acc)
  case Nil
  then show ?case by simp
next
  case (Cons g gs)
  from Cons.IH [of "updateGroup um rc acc g"] Cons.prems
  have "fst (updateGroup um rc acc g) p \<noteq> None \<or> from_groups um gs p" by simp
  then show ?case
  proof
    assume h: "fst (updateGroup um rc acc g) p \<noteq> None"
    show ?thesis
    proof (cases "um (Acls g)")
      case None
      with h show ?thesis by (simp add: updateGroup_def)
    next
      case (Some acls)
      with h foldl_updateAcl_dom [of rc "GroupID g" acc acls p]
      show ?thesis by (auto simp: updateGroup_def from_groups_def)
    qed
  next
    assume "from_groups um gs p"
    then show ?thesis by (auto simp: from_groups_def)
  qed
qed

lemma map_predRegex_regex_update:
  "map (predRegex \<circ> snd)
     (map (\<lambda>(k, r). if k = x then (k, r\<lparr>groupPerms := f r\<rparr>) else (k, r)) rp)
   = map (predRegex \<circ> snd) rp"
  by (induction rp) auto

lemma updateAcl_regex:
  "r \<in> set (map (predRegex \<circ> snd) (snd (updateAcl rc gid acc a))) \<Longrightarrow>
     r \<in> set (map (predRegex \<circ> snd) (snd acc)) \<or> rc (Regex a) = Some r"
  unfolding updateAcl_def
  by (cases acc)
     (auto simp: map_predRegex_regex_update simp del: set_map map_map
           split: option.splits if_splits)

lemma foldl_updateAcl_regex:
  "r \<in> set (map (predRegex \<circ> snd) (snd (foldl (updateAcl rc gid) acc as))) \<Longrightarrow>
     r \<in> set (map (predRegex \<circ> snd) (snd acc)) \<or> (\<exists>a \<in> set as. rc (Regex a) = Some r)"
proof (induction as arbitrary: acc)
  case Nil
  then show ?case by simp
next
  case (Cons a as)
  from Cons.IH [of "updateAcl rc gid acc a"] Cons.prems
  have "r \<in> set (map (predRegex \<circ> snd) (snd (updateAcl rc gid acc a)))
        \<or> (\<exists>a \<in> set as. rc (Regex a) = Some r)" by simp
  then show ?case using updateAcl_regex [of r rc gid acc a] by auto
qed

lemma foldl_updateGroup_regex:
  "r \<in> set (map (predRegex \<circ> snd) (snd (foldl (updateGroup um rc) acc gs))) \<Longrightarrow>
     r \<in> set (map (predRegex \<circ> snd) (snd acc)) \<or> regex_from_groups um rc gs r"
proof (induction gs arbitrary: acc)
  case Nil
  then show ?case by simp
next
  case (Cons g gs)
  from Cons.IH [of "updateGroup um rc acc g"] Cons.prems
  have "r \<in> set (map (predRegex \<circ> snd) (snd (updateGroup um rc acc g)))
        \<or> regex_from_groups um rc gs r" by simp
  then show ?case
  proof
    assume h: "r \<in> set (map (predRegex \<circ> snd) (snd (updateGroup um rc acc g)))"
    show ?thesis
    proof (cases "um (Acls g)")
      case None
      with h show ?thesis by (simp add: updateGroup_def)
    next
      case (Some acls)
      with h foldl_updateAcl_regex [of r rc "GroupID g" acc acls]
      show ?thesis by (auto simp: updateGroup_def regex_from_groups_def)
    qed
  next
    assume "regex_from_groups um rc gs r"
    then show ?thesis by (auto simp: regex_from_groups_def)
  qed
qed

lemma update_regex_from_groups:
  assumes "r \<in> set (predRegexRules (update um rc c gs))"
  shows "regex_from_groups um rc gs (predRegex r)"
proof -
  have "predRegex r
          \<in> set (map (predRegex \<circ> snd) (snd (foldl (updateGroup um rc) (Map.empty, []) gs)))"
    using assms by (auto simp: update_def split: prod.splits)
  from foldl_updateGroup_regex [OF this] show ?thesis by simp
qed

lemma update_cache_irrelevant: "update um rc c gs = update um rc c' gs"
  by (simp add: update_def split: prod.splits)

text \<open>Every exact-predicate rule of the groups is in the new cache.\<close>

lemma updateAcl_keeps:
  "fst acc p \<noteq> None \<Longrightarrow> fst (updateAcl rc gid acc a) p \<noteq> None"
  by (cases acc) (auto simp: updateAcl_def split: option.splits)

lemma updateAcl_adds:
  "Predicate a \<noteq> [] \<Longrightarrow> fst (updateAcl rc gid acc a) (Predicate a) \<noteq> None"
  by (cases acc) (auto simp: updateAcl_def split: option.splits)

lemma foldl_updateAcl_keeps:
  "fst acc p \<noteq> None \<Longrightarrow> fst (foldl (updateAcl rc gid) acc as) p \<noteq> None"
proof (induction as arbitrary: acc)
  case Nil
  then show ?case by simp
next
  case (Cons a as)
  from Cons.IH [OF updateAcl_keeps [OF Cons.prems, of rc gid a]] show ?case by simp
qed

lemma foldl_updateAcl_adds:
  "a \<in> set as \<Longrightarrow> Predicate a \<noteq> [] \<Longrightarrow>
     fst (foldl (updateAcl rc gid) acc as) (Predicate a) \<noteq> None"
proof (induction as arbitrary: acc)
  case Nil
  then show ?case by simp
next
  case (Cons b bs)
  show ?case
  proof (cases "a = b")
    case True
    from foldl_updateAcl_keeps [OF updateAcl_adds [OF Cons.prems(2), of rc gid acc], of rc gid bs]
    show ?thesis using True by simp
  next
    case False
    with Cons show ?thesis by simp
  qed
qed

lemma updateGroup_keeps:
  assumes "fst acc p \<noteq> None"
  shows "fst (updateGroup um rc acc g) p \<noteq> None"
proof (cases "um (Acls g)")
  case None
  with assms show ?thesis by (simp add: updateGroup_def)
next
  case (Some acls)
  from foldl_updateAcl_keeps [OF assms, of rc "GroupID g" acls] Some
  show ?thesis by (simp add: updateGroup_def)
qed

lemma foldl_updateGroup_keeps:
  "fst acc p \<noteq> None \<Longrightarrow> fst (foldl (updateGroup um rc) acc gs) p \<noteq> None"
proof (induction gs arbitrary: acc)
  case Nil
  then show ?case by simp
next
  case (Cons g gs)
  from Cons.IH [OF updateGroup_keeps [OF Cons.prems, of um rc g]] show ?case by simp
qed

lemma foldl_updateGroup_adds:
  "from_groups um gs p \<Longrightarrow> fst (foldl (updateGroup um rc) acc gs) p \<noteq> None"
proof (induction gs arbitrary: acc)
  case Nil
  then show ?case by (simp add: from_groups_def)
next
  case (Cons g gs)
  show ?case
  proof (cases "\<exists>acls. um (Acls g) = Some acls \<and> (\<exists>a \<in> set acls. Predicate a = p \<and> p \<noteq> [])")
    case True
    then obtain acls a where "um (Acls g) = Some acls" "a \<in> set acls" "Predicate a = p" "p \<noteq> []"
      by blast
    then have "fst (updateGroup um rc acc g) p \<noteq> None"
      using foldl_updateAcl_adds [of a acls rc "GroupID g" acc] by (simp add: updateGroup_def)
    from foldl_updateGroup_keeps [OF this, of um rc gs] show ?thesis by simp
  next
    case False
    with Cons.prems have "from_groups um gs p" by (auto simp: from_groups_def)
    from Cons.IH [OF this] show ?thesis by simp
  qed
qed

lemma update_installs:
  assumes "from_groups um gs p"
  shows "predPerms (update um rc c gs) p \<noteq> None"
proof -
  obtain pp rp where f: "foldl (updateGroup um rc) (Map.empty, []) gs = (pp, rp)"
    by (cases "foldl (updateGroup um rc) (Map.empty, []) gs")
  from foldl_updateGroup_adds [OF assms, of rc "(Map.empty, [])"] f have "pp p \<noteq> None"
    by simp
  with f show ?thesis by (simp add: update_def)
qed

text \<open>
  Claim C10. \<open>update\<close> always completes: a group whose blob does not unmarshal (\<open>gb\<close>)
  and a rule whose regex does not compile (\<open>a\<close>) change nothing, as if they were not in
  the argument. The new cache does not depend on the cache before the call: every
  exact-predicate rule and every regex rule of it comes from the groups of this call, so
  a rule of an earlier update that is absent from the new groups does not survive; and
  every exact-predicate rule of a group whose blob unmarshals is in the new cache.
\<close>

theorem update_skips_and_replaces:
  "update um rc c gs = update um rc c' gs \<and>
   (predPerms (update um rc c gs) p \<noteq> None \<longrightarrow> from_groups um gs p) \<and>
   (\<forall>r \<in> set (predRegexRules (update um rc c gs)). regex_from_groups um rc gs (predRegex r)) \<and>
   (um (Acls gb) = None \<longrightarrow> update um rc c (gs1 @ gb # gs2) = update um rc c (gs1 @ gs2)) \<and>
   (um (Acls g) = Some (as1 @ a # as2) \<and> Predicate a = [] \<and> rc (Regex a) = None \<and>
    um (Acls g') = Some (as1 @ as2) \<and> GroupID g' = GroupID g
      \<longrightarrow> update um rc c (gs1 @ g # gs2) = update um rc c (gs1 @ g' # gs2)) \<and>
   (from_groups um gs p \<longrightarrow> predPerms (update um rc c gs) p \<noteq> None)"
proof (intro conjI impI ballI)
  show "update um rc c gs = update um rc c' gs" by (rule update_cache_irrelevant)
next
  assume "predPerms (update um rc c gs) p \<noteq> None"
  then have "fst (foldl (updateGroup um rc) (Map.empty, []) gs) p \<noteq> None"
    by (simp add: update_def split: prod.splits)
  from foldl_updateGroup_dom [OF this] show "from_groups um gs p" by simp
next
  fix r assume "r \<in> set (predRegexRules (update um rc c gs))"
  then show "regex_from_groups um rc gs (predRegex r)" by (rule update_regex_from_groups)
next
  assume "um (Acls gb) = None"
  then show "update um rc c (gs1 @ gb # gs2) = update um rc c (gs1 @ gs2)"
    by (simp add: update_def updateGroup_unmarshal_fails)
next
  assume h: "um (Acls g) = Some (as1 @ a # as2) \<and> Predicate a = [] \<and> rc (Regex a) = None \<and>
    um (Acls g') = Some (as1 @ as2) \<and> GroupID g' = GroupID g"
  have ck: "compiled_keys rc (snd (foldl (updateGroup um rc) (Map.empty, []) gs1))"
    by (rule foldl_updateGroup_compiled_keys) (simp add: compiled_keys_def)
  have "updateGroup um rc (foldl (updateGroup um rc) (Map.empty, []) gs1) g
      = updateGroup um rc (foldl (updateGroup um rc) (Map.empty, []) gs1) g'"
    using h by (intro updateGroup_regex_fails [OF ck]) auto
  then show "update um rc c (gs1 @ g # gs2) = update um rc c (gs1 @ g' # gs2)"
    by (simp add: update_def)
next
  assume "from_groups um gs p"
  then show "predPerms (update um rc c gs) p \<noteq> None" by (rule update_installs)
qed

text \<open>
  On the small cache: the rule of \<open>dev\<close> for \<open>name\<close> is gone after an update with the
  group \<open>ops\<close> alone; the blob \<open>{\<close> and the regex \<open>(\<close> are skipped.
\<close>

theorem update_skips_and_replaces_witness:
  "predPerms exCache ''name'' = Some [''dev'' \<mapsto> 4] \<and>
   predPerms (update exUnmarshal exCompile exCache [\<lparr>GroupID = ''ops'', Acls = ''A''\<rparr>]) ''name''
     = Some [''ops'' \<mapsto> 4] \<and>
   from_groups exUnmarshal [\<lparr>GroupID = ''ops'', Acls = ''A''\<rparr>] ''name'' \<and>
   predRegexRules (update exUnmarshal exCompile exCache [\<lparr>GroupID = ''ops'', Acls = ''A''\<rparr>]) = [] \<and>
   exUnmarshal ''{'' = None \<and>
   update exUnmarshal exCompile exCache
       [\<lparr>GroupID = ''dev'', Acls = ''{''\<rparr>, \<lparr>GroupID = ''ops'', Acls = ''A''\<rparr>]
     = update exUnmarshal exCompile exCache [\<lparr>GroupID = ''ops'', Acls = ''A''\<rparr>] \<and>
   exCompile ''('' = None \<and>
   update exUnmarshal exCompile exCache [\<lparr>GroupID = ''ops'', Acls = ''A''\<rparr>]
     = update exUnmarshal exCompile exCache [\<lparr>GroupID = ''ops'', Acls = ''B''\<rparr>]"
  using update_skips_and_replaces
          [of exUnmarshal exCompile exCache "[\<lparr>GroupID = ''ops'', Acls = ''A''\<rparr>]" exCache
              "''name''" "\<lparr>GroupID = ''dev'', Acls = ''{''\<rparr>" "[]"
              "[\<lparr>GroupID = ''ops'', Acls = ''A''\<rparr>]"
              "\<lparr>GroupID = ''ops'', Acls = ''A''\<rparr>"
              "[\<lparr>Predicate = ''name'', Regex = [], Perm = 4\<rparr>]"
              "\<lparr>Predicate = [], Regex = ''('', Perm = 4\<rparr>" "[]"
              "\<lparr>GroupID = ''ops'', Acls = ''B''\<rparr>"]
  by (simp add: update_def updateGroup_def updateAcl_def exUnmarshal_def exCompile_def exCache_def)

section \<open>Properties of the map stage\<close>

subsection \<open>Counting over the mapper goroutines\<close>

lemma filter_count_update:
  "i < length ms \<Longrightarrow>
     length (filter P (ms[i := x])) + (if P (ms ! i) then 1 else 0)
       = length (filter P ms) + (if P x then 1 else 0)"
proof (induction ms arbitrary: i)
  case Nil
  then show ?case by simp
next
  case (Cons m ms)
  show ?case
  proof (cases i)
    case 0
    then show ?thesis by simp
  next
    case (Suc k)
    with Cons.prems have "k < length ms" by simp
    from Cons.IH [OF this] Suc show ?thesis by simp
  qed
qed

lemma exitedCount_update_exit:
  "i < length ms \<Longrightarrow> mpc (ms ! i) \<noteq> MExit \<Longrightarrow> mpc x = MExit \<Longrightarrow>
     exitedCount (ms[i := x]) = Suc (exitedCount ms)"
  using filter_count_update [of i ms "\<lambda>m. mpc m = MExit" x] by (simp add: exitedCount_def)

lemma exitedCount_update_same:
  "i < length ms \<Longrightarrow> mpc (ms ! i) \<noteq> MExit \<Longrightarrow> mpc x \<noteq> MExit \<Longrightarrow>
     exitedCount (ms[i := x]) = exitedCount ms"
  using filter_count_update [of i ms "\<lambda>m. mpc m = MExit" x] by (simp add: exitedCount_def)

lemma exitedCount_all: "exitedCount ms = length ms \<longleftrightarrow> (\<forall>j < length ms. mpc (ms ! j) = MExit)"
proof -
  have "length (filter P ms) = length ms \<longleftrightarrow> (\<forall>x \<in> set ms. P x)" for P :: "'a mapper \<Rightarrow> bool"
  proof (induction ms)
    case Nil
    then show ?case by simp
  next
    case (Cons m ms)
    have ne: "length (filter P ms) \<noteq> Suc (length ms)"
      using length_filter_le [of P ms] by arith
    show ?case using Cons ne by auto
  qed
  then show ?thesis by (simp add: exitedCount_def all_set_conv_all_nth)
qed

lemma exitedCount_none: "(\<forall>j < length ms. mpc (ms ! j) \<noteq> MExit) \<Longrightarrow> exitedCount ms = 0"
  by (auto simp: exitedCount_def filter_empty_conv in_set_conv_nth)

lemma sum_list_map_update:
  fixes f :: "'a \<Rightarrow> 'b::comm_monoid_add"
  shows "i < length ms \<Longrightarrow>
     sum_list (map f (ms[i := x])) + f (ms ! i) = sum_list (map f ms) + f x"
proof (induction ms arbitrary: i)
  case Nil
  then show ?case by simp
next
  case (Cons m ms)
  show ?case
  proof (cases i)
    case 0
    then show ?thesis by (simp add: add.commute add.left_commute)
  next
    case (Suc k)
    with Cons.prems have "k < length ms" by simp
    from Cons.IH [OF this] Suc show ?thesis by (simp add: add.assoc)
  qed
qed

lemma observedAll_update_recv:
  assumes "i < length ms" "observed x = observed (ms ! i) @ [l]"
  shows "observedAll (ms[i := x]) = add_mset l (observedAll ms)"
proof -
  from sum_list_map_update [OF assms(1), of "\<lambda>m. mset (observed m)" x] assms(2)
  have "observedAll (ms[i := x]) + mset (observed (ms ! i))
        = add_mset l (observedAll ms) + mset (observed (ms ! i))"
    by (simp add: observedAll_def)
  then show ?thesis by simp
qed

lemma observedAll_update_same:
  assumes "i < length ms" "observed x = observed (ms ! i)"
  shows "observedAll (ms[i := x]) = observedAll ms"
proof -
  from sum_list_map_update [OF assms(1), of "\<lambda>m. mset (observed m)" x] assms(2)
  have "observedAll (ms[i := x]) + mset (observed (ms ! i))
        = observedAll ms + mset (observed (ms ! i))"
    by (simp add: observedAll_def)
  then show ?thesis by simp
qed

subsection \<open>The invariants are preserved by every step\<close>

text \<open>The step of the main goroutine, statement by statement.\<close>

lemma mainStep_simps:
  "pc s = PTempDir \<Longrightarrow> mainStep e s =
     (case tempDir e (tmpDir (opt s)) ''bulkloader_tmp_posting_'' of
             None \<Rightarrow> Some (s\<lparr>postingWriterWg := postingWriterWg s + 1,
                              fatal := Some ''TempDir''\<rparr>)
           | Some d \<Rightarrow> Some (s\<lparr>postingWriterWg := postingWriterWg s + 1,
                                tmpPostingsDir := d, pc := PGoWriter\<rparr>))"
  "pc s = PGoWriter \<Longrightarrow> mainStep e s = Some (s\<lparr>writerStarted := True, pc := POpen\<rparr>)"
  "pc s = POpen \<Longrightarrow> mainStep e s =
          (case openFile e (rdfFile (opt s)) of
             None \<Rightarrow> Some (s\<lparr>fatal := Some ''Could not read RDF file.''\<rparr>)
           | Some f \<Rightarrow> Some (s\<lparr>rdfStream := f, pc := PAddMappers\<rparr>))"
  "pc s = PAddMappers \<Longrightarrow> mainStep e s =
          Some (s\<lparr>mapperWg := mapperWg s + length (mappers s), pc := PGoMappers 0\<rparr>)"
  "pc s = PGoMappers i \<Longrightarrow> mainStep e s =
          (if i < length (mappers s)
          then Some (s\<lparr>mappers := (mappers s)[i := (mappers s ! i)\<lparr>mpc := MRecv\<rparr>],
                        pc := PGoMappers (Suc i)\<rparr>)
          else Some (s\<lparr>pc := PScanner\<rparr>))"
  "pc s = PScanner \<Longrightarrow> mainStep e s =
          (case sourceScanner e (opt s) (rdfStream s) of
             None \<Rightarrow> Some (s\<lparr>fatal := Some ''Could not create gzip reader for RDF file.''\<rparr>)
           | Some (gz, toks, err) \<Rightarrow> Some (s\<lparr>src := toks, srcErr := err, pc := PFeed\<rparr>))"
  "pc s = PFeed \<Longrightarrow> mainStep e s =
          (case src s of
             [] \<Rightarrow> Some (s\<lparr>pc := PCheckErr\<rparr>)
           | l # ls \<Rightarrow>
               if length (rdfCh s) < chanCap
               then Some (s\<lparr>rdfCh := rdfCh s @ [l], src := ls, enqueued := enqueued s @ [l]\<rparr>)
               else None)"
  "pc s = PCheckErr \<Longrightarrow> mainStep e s =
          (if srcErr s then Some (s\<lparr>fatal := Some ''Scanner''\<rparr>)
          else Some (s\<lparr>pc := PCloseRdf\<rparr>))"
  "pc s = PCloseRdf \<Longrightarrow> mainStep e s = Some (s\<lparr>rdfClosed := True, pc := PWaitMappers\<rparr>)"
  "pc s = PWaitMappers \<Longrightarrow> mainStep e s =
       (if mapperWg s = 0 then Some (s\<lparr>pc := PClosePostings\<rparr>) else None)"
  "pc s = PClosePostings \<Longrightarrow> mainStep e s = Some (s\<lparr>postingsClosed := True, pc := PWaitWriter\<rparr>)"
  "pc s = PWaitWriter \<Longrightarrow> mainStep e s =
      (if postingWriterWg s = 0 then Some (s\<lparr>pc := PReturn\<rparr>) else None)"
  "pc s = PReturn \<Longrightarrow> mainStep e s = None"
  by (simp_all add: mainStep_def)

lemma mapperStep_cases:
  assumes "mapperStep e i s = Some s'"
  obtains
    (recv) l ls where "i < length (mappers s)" "mpc (mappers s ! i) = MRecv" "rdfCh s = l # ls"
      "s' = s\<lparr>rdfCh := ls,
               mappers := (mappers s)[i := \<lparr>mpc = MSend (transformer e l),
                                           observed = observed (mappers s ! i) @ [l]\<rparr>]\<rparr>"
  | (exit) "i < length (mappers s)" "mpc (mappers s ! i) = MRecv" "rdfCh s = []" "rdfClosed s"
      "s' = s\<lparr>mappers := (mappers s)[i := (mappers s ! i)\<lparr>mpc := MExit\<rparr>],
               mapperWg := mapperWg s - 1\<rparr>"
  | (sent) "i < length (mappers s)" "mpc (mappers s ! i) = MSend []"
      "s' = s\<lparr>mappers := (mappers s)[i := (mappers s ! i)\<lparr>mpc := MRecv\<rparr>]\<rparr>"
  | (panic) p ps where "i < length (mappers s)" "mpc (mappers s ! i) = MSend (p # ps)"
      "postingsClosed s" "s' = s\<lparr>fatal := Some ''send on closed channel''\<rparr>"
  | (send) p ps where "i < length (mappers s)" "mpc (mappers s ! i) = MSend (p # ps)"
      "\<not> postingsClosed s" "length (postingsCh s) < chanCap"
      "s' = s\<lparr>postingsCh := postingsCh s @ [p],
               mappers := (mappers s)[i := (mappers s ! i)\<lparr>mpc := MSend ps\<rparr>]\<rparr>"
  using assms unfolding mapperStep_def Let_def
  by (auto split: if_splits mapper_pc.splits list.splits)

lemma writerStep_cases:
  assumes "writerStep e s = Some s'"
  obtains
    (recv) p ps where "writerStarted s" "\<not> writerDone s" "postingsCh s = p # ps"
      "s' = s\<lparr>postingsCh := ps, received := received s @ [p]\<rparr>"
  | (finish) "writerStarted s" "\<not> writerDone s" "postingsCh s = []" "postingsClosed s"
      "s' = s\<lparr>mapOutput := writeRuns e (tmpPostingsDir s) (received s),
               writerDone := True, postingWriterWg := postingWriterWg s - 1\<rparr>"
  using assms unfolding writerStep_def
  by (auto split: if_splits list.splits)

lemma mapInv_parts:
  "mapInv e s \<Longrightarrow> invCtl s" "mapInv e s \<Longrightarrow> invIdle s" "mapInv e s \<Longrightarrow> invWg s"
  "mapInv e s \<Longrightarrow> invExit s" "mapInv e s \<Longrightarrow> invData e s" "mapInv e s \<Longrightarrow> invFatal e s"
  by (simp_all add: mapInv_def invMappers_def)

lemma mapInvI:
  "invCtl s \<Longrightarrow> invIdle s \<Longrightarrow> invWg s \<Longrightarrow> invExit s \<Longrightarrow> invData e s \<Longrightarrow> invFatal e s
     \<Longrightarrow> mapInv e s"
  by (simp add: mapInv_def invMappers_def)

text \<open>A mapper that has been started, and one that has not exited yet.\<close>

lemma started_facts:
  assumes "invIdle s" "i < length (mappers s)" "mpc (mappers s ! i) \<noteq> MIdle"
  shows "4 \<le> pcRank (pc s)" "\<forall>k. pc s = PGoMappers k \<longrightarrow> \<not> k \<le> i"
  using assms by (fastforce simp: invIdle_def)+

lemma running_facts:
  assumes "invExit s" "i < length (mappers s)" "mpc (mappers s ! i) \<noteq> MExit"
  shows "\<not> 10 \<le> pcRank (pc s)"
  using assms by (fastforce simp: invExit_def)

lemma running_wg:
  assumes "invWg s" "4 \<le> pcRank (pc s)" "i < length (mappers s)" "mpc (mappers s ! i) \<noteq> MExit"
  shows "0 < mapperWg s"
proof -
  have "exitedCount (mappers s) \<noteq> length (mappers s)"
    using assms(3,4) by (auto simp: exitedCount_all)
  with assms(1,2) show ?thesis by (auto simp: invWg_def)
qed

lemma mapperStep_invCtl:
  assumes inv: "mapInv e s" and st: "mapperStep e i s = Some s'"
  shows "invCtl s'"
  using st
proof (cases rule: mapperStep_cases)
  case (panic p ps)
  with running_facts [OF mapInv_parts(4) [OF inv], of i] mapInv_parts(1) [OF inv]
  show ?thesis by (simp add: invCtl_def)
qed (use mapInv_parts(1) [OF inv] in \<open>auto simp: invCtl_def\<close>)

lemma mapperStep_invIdle:
  assumes inv: "mapInv e s" and st: "mapperStep e i s = Some s'"
  shows "invIdle s'"
  using st
proof (cases rule: mapperStep_cases)
  case (recv l ls)
  with started_facts [OF mapInv_parts(2) [OF inv], of i] mapInv_parts(2) [OF inv]
  show ?thesis by (auto simp: invIdle_def nth_list_update)
next
  case exit
  with started_facts [OF mapInv_parts(2) [OF inv], of i] mapInv_parts(2) [OF inv]
  show ?thesis by (auto simp: invIdle_def nth_list_update)
next
  case sent
  with started_facts [OF mapInv_parts(2) [OF inv], of i] mapInv_parts(2) [OF inv]
  show ?thesis by (auto simp: invIdle_def nth_list_update)
next
  case (panic p ps)
  with mapInv_parts(2) [OF inv] show ?thesis by (simp add: invIdle_def)
next
  case (send p ps)
  with started_facts [OF mapInv_parts(2) [OF inv], of i] mapInv_parts(2) [OF inv]
  show ?thesis by (auto simp: invIdle_def nth_list_update)
qed

lemma mapperStep_invWg:
  assumes inv: "mapInv e s" and st: "mapperStep e i s = Some s'"
  shows "invWg s'"
  using st
proof (cases rule: mapperStep_cases)
  case (recv l ls)
  with started_facts(1) [OF mapInv_parts(2) [OF inv], of i] mapInv_parts(3) [OF inv]
  show ?thesis by (auto simp: invWg_def exitedCount_update_same)
next
  case exit
  have r4: "4 \<le> pcRank (pc s)"
    using started_facts(1) [OF mapInv_parts(2) [OF inv], of i] exit by simp
  have "0 < mapperWg s"
    using running_wg [OF mapInv_parts(3) [OF inv] r4, of i] exit by simp
  with exit r4 mapInv_parts(3) [OF inv]
  show ?thesis by (auto simp: invWg_def exitedCount_update_exit)
next
  case sent
  with started_facts(1) [OF mapInv_parts(2) [OF inv], of i] mapInv_parts(3) [OF inv]
  show ?thesis by (auto simp: invWg_def exitedCount_update_same)
next
  case (panic p ps)
  with mapInv_parts(3) [OF inv] show ?thesis by (simp add: invWg_def)
next
  case (send p ps)
  with started_facts(1) [OF mapInv_parts(2) [OF inv], of i] mapInv_parts(3) [OF inv]
  show ?thesis by (auto simp: invWg_def exitedCount_update_same)
qed

lemma mapperStep_invExit:
  assumes inv: "mapInv e s" and st: "mapperStep e i s = Some s'"
  shows "invExit s'"
  using st
proof (cases rule: mapperStep_cases)
  case (recv l ls)
  have "\<forall>j < length (mappers s). mpc (mappers s ! j) \<noteq> MExit"
    using mapInv_parts(4) [OF inv] recv by (auto simp: invExit_def)
  with recv running_facts [OF mapInv_parts(4) [OF inv], of i]
  show ?thesis by (auto simp: invExit_def nth_list_update)
next
  case exit
  with running_facts [OF mapInv_parts(4) [OF inv], of i]
  show ?thesis by (auto simp: invExit_def nth_list_update)
next
  case sent
  with running_facts [OF mapInv_parts(4) [OF inv], of i] mapInv_parts(4) [OF inv]
  show ?thesis by (auto simp: invExit_def nth_list_update)
next
  case (panic p ps)
  with mapInv_parts(4) [OF inv] show ?thesis by (simp add: invExit_def)
next
  case (send p ps)
  with running_facts [OF mapInv_parts(4) [OF inv], of i] mapInv_parts(4) [OF inv]
  show ?thesis by (auto simp: invExit_def nth_list_update)
qed

lemma mapperStep_invData:
  assumes inv: "mapInv e s" and st: "mapperStep e i s = Some s'"
  shows "invData e s'"
  using st
proof (cases rule: mapperStep_cases)
  case (recv l ls)
  with mapInv_parts(5) [OF inv]
  show ?thesis by (auto simp: invData_def observedAll_update_recv)
qed (use mapInv_parts(5) [OF inv] in \<open>auto simp: invData_def observedAll_update_same\<close>)

lemma mapperStep_invFatal:
  assumes inv: "mapInv e s" and f: "fatal s = None" and st: "mapperStep e i s = Some s'"
  shows "invFatal e s'"
  using st
proof (cases rule: mapperStep_cases)
  case (panic p ps)
  with running_facts [OF mapInv_parts(4) [OF inv], of i] mapInv_parts(1) [OF inv]
  show ?thesis by (simp add: invCtl_def)
qed (use f in \<open>simp_all add: invFatal_def\<close>)

lemma mapperStep_mapInv:
  assumes "mapInv e s" "fatal s = None" "mapperStep e i s = Some s'"
  shows "mapInv e s'"
proof (rule mapInvI)
  show "invCtl s'" by (rule mapperStep_invCtl [OF assms(1,3)])
  show "invIdle s'" by (rule mapperStep_invIdle [OF assms(1,3)])
  show "invWg s'" by (rule mapperStep_invWg [OF assms(1,3)])
  show "invExit s'" by (rule mapperStep_invExit [OF assms(1,3)])
  show "invData e s'" by (rule mapperStep_invData [OF assms(1,3)])
  show "invFatal e s'" by (rule mapperStep_invFatal [OF assms])
qed

lemma mainStep_cases:
  assumes "mainStep e s = Some s'"
  obtains
    (tempdir_fail) "pc s = PTempDir"
      "tempDir e (tmpDir (opt s)) ''bulkloader_tmp_posting_'' = None"
      "s' = s\<lparr>postingWriterWg := postingWriterWg s + 1, fatal := Some ''TempDir''\<rparr>"
  | (tempdir_ok) d where "pc s = PTempDir"
      "tempDir e (tmpDir (opt s)) ''bulkloader_tmp_posting_'' = Some d"
      "s' = s\<lparr>postingWriterWg := postingWriterWg s + 1, tmpPostingsDir := d, pc := PGoWriter\<rparr>"
  | (gowriter) "pc s = PGoWriter" "s' = s\<lparr>writerStarted := True, pc := POpen\<rparr>"
  | (open_fail) "pc s = POpen" "openFile e (rdfFile (opt s)) = None"
      "s' = s\<lparr>fatal := Some ''Could not read RDF file.''\<rparr>"
  | (open_ok) f where "pc s = POpen" "openFile e (rdfFile (opt s)) = Some f"
      "s' = s\<lparr>rdfStream := f, pc := PAddMappers\<rparr>"
  | (addmappers) "pc s = PAddMappers"
      "s' = s\<lparr>mapperWg := mapperWg s + length (mappers s), pc := PGoMappers 0\<rparr>"
  | (gomapper) i where "pc s = PGoMappers i" "i < length (mappers s)"
      "s' = s\<lparr>mappers := (mappers s)[i := (mappers s ! i)\<lparr>mpc := MRecv\<rparr>],
               pc := PGoMappers (Suc i)\<rparr>"
  | (gomappers_end) i where "pc s = PGoMappers i" "\<not> i < length (mappers s)"
      "s' = s\<lparr>pc := PScanner\<rparr>"
  | (scanner_fail) "pc s = PScanner" "sourceScanner e (opt s) (rdfStream s) = None"
      "s' = s\<lparr>fatal := Some ''Could not create gzip reader for RDF file.''\<rparr>"
  | (scanner_ok) gz toks err where "pc s = PScanner"
      "sourceScanner e (opt s) (rdfStream s) = Some (gz, toks, err)"
      "s' = s\<lparr>src := toks, srcErr := err, pc := PFeed\<rparr>"
  | (feed_end) "pc s = PFeed" "src s = []" "s' = s\<lparr>pc := PCheckErr\<rparr>"
  | (feed_send) l ls where "pc s = PFeed" "src s = l # ls" "length (rdfCh s) < chanCap"
      "s' = s\<lparr>rdfCh := rdfCh s @ [l], src := ls, enqueued := enqueued s @ [l]\<rparr>"
  | (check_fail) "pc s = PCheckErr" "srcErr s" "s' = s\<lparr>fatal := Some ''Scanner''\<rparr>"
  | (check_ok) "pc s = PCheckErr" "\<not> srcErr s" "s' = s\<lparr>pc := PCloseRdf\<rparr>"
  | (closerdf) "pc s = PCloseRdf" "s' = s\<lparr>rdfClosed := True, pc := PWaitMappers\<rparr>"
  | (waitmappers) "pc s = PWaitMappers" "mapperWg s = 0" "s' = s\<lparr>pc := PClosePostings\<rparr>"
  | (closepostings) "pc s = PClosePostings"
      "s' = s\<lparr>postingsClosed := True, pc := PWaitWriter\<rparr>"
  | (waitwriter) "pc s = PWaitWriter" "postingWriterWg s = 0" "s' = s\<lparr>pc := PReturn\<rparr>"
proof (cases "pc s")
  case PTempDir
  with assms that(1,2) show ?thesis by (auto simp: mainStep_simps split: option.splits)
next
  case PGoWriter
  with assms that(3) show ?thesis by (auto simp: mainStep_simps)
next
  case POpen
  with assms that(4,5) show ?thesis by (auto simp: mainStep_simps split: option.splits)
next
  case PAddMappers
  with assms that(6) show ?thesis by (auto simp: mainStep_simps)
next
  case (PGoMappers i)
  with assms that(7,8) show ?thesis by (auto simp: mainStep_simps split: if_splits)
next
  case PScanner
  with assms that(9,10) show ?thesis by (auto simp: mainStep_simps split: option.splits)
next
  case PFeed
  with assms that(11,12) show ?thesis by (auto simp: mainStep_simps split: list.splits if_splits)
next
  case PCheckErr
  with assms that(13,14) show ?thesis by (auto simp: mainStep_simps split: if_splits)
next
  case PCloseRdf
  with assms that(15) show ?thesis by (auto simp: mainStep_simps)
next
  case PWaitMappers
  with assms that(16) show ?thesis by (auto simp: mainStep_simps split: if_splits)
next
  case PClosePostings
  with assms that(17) show ?thesis by (auto simp: mainStep_simps)
next
  case PWaitWriter
  with assms that(18) show ?thesis by (auto simp: mainStep_simps split: if_splits)
next
  case PReturn
  with assms show ?thesis by (simp add: mainStep_simps)
qed

lemma mainStep_invCtl:
  assumes inv: "mapInv e s" and f: "fatal s = None" and st: "mainStep e s = Some s'"
  shows "invCtl s'"
  using st
  by (cases rule: mainStep_cases)
     (use mapInv_parts(1) [OF inv] f in \<open>auto simp: invCtl_def split: if_splits\<close>)

lemma mainStep_invIdle:
  assumes inv: "mapInv e s" and st: "mainStep e s = Some s'"
  shows "invIdle s'"
  using st
proof (cases rule: mainStep_cases)
  case (gomapper i)
  with mapInv_parts(2) [OF inv] show ?thesis
    by (auto simp: invIdle_def nth_list_update)
next
  case (gomappers_end i)
  with mapInv_parts(2) [OF inv] show ?thesis
    by (auto simp: invIdle_def)
qed (use mapInv_parts(2) [OF inv] in \<open>auto simp: invIdle_def\<close>)

lemma mainStep_invWg:
  assumes inv: "mapInv e s" and st: "mainStep e s = Some s'"
  shows "invWg s'"
  using st
proof (cases rule: mainStep_cases)
  case addmappers
  have "\<forall>j < length (mappers s). mpc (mappers s ! j) \<noteq> MExit"
    using mapInv_parts(2) [OF inv] addmappers by (auto simp: invIdle_def)
  then have "exitedCount (mappers s) = 0" by (rule exitedCount_none)
  with addmappers mapInv_parts(3) [OF inv] show ?thesis by (auto simp: invWg_def)
next
  case (gomapper i)
  have "mpc (mappers s ! i) = MIdle"
    using mapInv_parts(2) [OF inv] gomapper by (auto simp: invIdle_def)
  with gomapper mapInv_parts(3) [OF inv] show ?thesis
    by (auto simp: invWg_def exitedCount_update_same)
qed (use mapInv_parts(3) [OF inv] in \<open>auto simp: invWg_def\<close>)

lemma not_closed_no_exit:
  assumes "mapInv e s" "pcRank (pc s) < 9"
  shows "\<forall>j < length (mappers s). mpc (mappers s ! j) \<noteq> MExit"
  using mapInv_parts(1) [OF assms(1)] mapInv_parts(4) [OF assms(1)] assms(2)
  by (auto simp: invCtl_def invExit_def)

lemma mainStep_invExit:
  assumes inv: "mapInv e s" and st: "mainStep e s = Some s'"
  shows "invExit s'"
  using st
proof (cases rule: mainStep_cases)
  case (gomapper i)
  with not_closed_no_exit [OF inv] show ?thesis
    by (auto simp: invExit_def nth_list_update)
next
  case (feed_send l ls)
  with not_closed_no_exit [OF inv] show ?thesis by (auto simp: invExit_def)
next
  case closerdf
  with not_closed_no_exit [OF inv] show ?thesis by (auto simp: invExit_def)
next
  case waitmappers
  with mapInv_parts(3) [OF inv] have "exitedCount (mappers s) = length (mappers s)"
    by (simp add: invWg_def)
  then have "\<forall>j < length (mappers s). mpc (mappers s ! j) = MExit"
    by (simp add: exitedCount_all)
  with waitmappers mapInv_parts(4) [OF inv] show ?thesis by (auto simp: invExit_def)
qed (use mapInv_parts(4) [OF inv] in \<open>auto simp: invExit_def\<close>)

lemma mainStep_invData:
  assumes inv: "mapInv e s" and st: "mainStep e s = Some s'"
  shows "invData e s'"
  using st
proof (cases rule: mainStep_cases)
  case (gomapper i)
  with mapInv_parts(5) [OF inv] show ?thesis
    by (auto simp: invData_def observedAll_update_same)
qed (use mapInv_parts(5) [OF inv] in \<open>auto simp: invData_def\<close>)

lemma mainStep_invFatal:
  assumes inv: "mapInv e s" and f: "fatal s = None" and st: "mainStep e s = Some s'"
  shows "invFatal e s'"
  using st
  by (cases rule: mainStep_cases) (use f in \<open>auto simp: invFatal_def\<close>)

lemma mainStep_mapInv:
  assumes "mapInv e s" "fatal s = None" "mainStep e s = Some s'"
  shows "mapInv e s'"
proof (rule mapInvI)
  show "invCtl s'" by (rule mainStep_invCtl [OF assms])
  show "invIdle s'" by (rule mainStep_invIdle [OF assms(1,3)])
  show "invWg s'" by (rule mainStep_invWg [OF assms(1,3)])
  show "invExit s'" by (rule mainStep_invExit [OF assms(1,3)])
  show "invData e s'" by (rule mainStep_invData [OF assms(1,3)])
  show "invFatal e s'" by (rule mainStep_invFatal [OF assms])
qed

lemma writerStep_mapInv:
  assumes inv: "mapInv e s" and f: "fatal s = None" and st: "writerStep e s = Some s'"
  shows "mapInv e s'"
proof (rule mapInvI)
  show "invCtl s'" using st
    by (cases rule: writerStep_cases)
       (use mapInv_parts(1) [OF inv] in \<open>auto simp: invCtl_def split: if_splits\<close>)
  show "invIdle s'" using st
    by (cases rule: writerStep_cases) (use mapInv_parts(2) [OF inv] in \<open>auto simp: invIdle_def\<close>)
  show "invWg s'" using st
    by (cases rule: writerStep_cases) (use mapInv_parts(3) [OF inv] in \<open>auto simp: invWg_def\<close>)
  show "invExit s'" using st
    by (cases rule: writerStep_cases) (use mapInv_parts(4) [OF inv] in \<open>auto simp: invExit_def\<close>)
  show "invData e s'" using st
    by (cases rule: writerStep_cases) (use mapInv_parts(5) [OF inv] in \<open>auto simp: invData_def\<close>)
  show "invFatal e s'" using st
    by (cases rule: writerStep_cases) (use f in \<open>auto simp: invFatal_def\<close>)
qed

lemma mapStep_mapInv:
  assumes "mapInv e s" "mapStep e t s = Some s'"
  shows "mapInv e s'"
proof -
  have f: "fatal s = None" using assms(2) by (simp add: mapStep_def split: if_splits)
  show ?thesis
  proof (cases t)
    case TMain
    with assms f show ?thesis by (auto simp: mapStep_def intro: mainStep_mapInv)
  next
    case TWriter
    with assms f show ?thesis by (auto simp: mapStep_def intro: writerStep_mapInv)
  next
    case (TMapper i)
    with assms f show ?thesis by (auto simp: mapStep_def intro: mapperStep_mapInv)
  next
    case TShuffle
    with assms f show ?thesis by (simp add: mapStep_def)
  next
    case (TReducer i)
    with assms f show ?thesis by (simp add: mapStep_def)
  qed
qed

lemma mapRun_Nil [simp]: "mapRun e [] s = s"
  by (simp add: mapRun_def)

lemma mapRun_Cons:
  "mapRun e (t # ts) s = mapRun e ts (case mapStep e t s of None \<Rightarrow> s | Some s' \<Rightarrow> s')"
  by (simp add: mapRun_def)

lemma mapRun_mapInv: "mapInv e s \<Longrightarrow> mapInv e (mapRun e sched s)"
proof (induction sched arbitrary: s)
  case Nil
  then show ?case by simp
next
  case (Cons t ts)
  show ?case
  proof (cases "mapStep e t s")
    case None
    with Cons show ?thesis by (simp add: mapRun_Cons)
  next
    case (Some s')
    with Cons.prems have "mapInv e s'" by (auto intro: mapStep_mapInv)
    with Cons.IH Some show ?thesis by (simp add: mapRun_Cons)
  qed
qed

lemma observedAll_replicate: "observedAll (replicate n \<lparr>mpc = c, observed = []\<rparr>) = {#}"
  by (induction n) (simp_all add: observedAll_def)

lemma newLoader_mapInv: "newLoader e op = Inr s \<Longrightarrow> mapInv e s"
  by (auto simp: newLoader_def mapInv_def invCtl_def invMappers_def invIdle_def invWg_def
        invExit_def invData_def invFatal_def observedAll_replicate
      split: option.splits if_splits)

text \<open>No step changes the options or the number of mappers.\<close>

lemma mapStep_opt:
  assumes "mapStep e t s = Some s'"
  shows "opt s' = opt s \<and> length (mappers s') = length (mappers s)"
proof (cases t)
  case TMain
  with assms have "mainStep e s = Some s'" by (simp add: mapStep_def split: if_splits)
  then show ?thesis by (cases rule: mainStep_cases) auto
next
  case TWriter
  with assms have "writerStep e s = Some s'" by (simp add: mapStep_def split: if_splits)
  then show ?thesis by (cases rule: writerStep_cases) auto
next
  case (TMapper i)
  with assms have "mapperStep e i s = Some s'" by (simp add: mapStep_def split: if_splits)
  then show ?thesis by (cases rule: mapperStep_cases) auto
next
  case TShuffle
  with assms show ?thesis by (simp add: mapStep_def split: if_splits)
next
  case (TReducer i)
  with assms show ?thesis by (simp add: mapStep_def split: if_splits)
qed

lemma mapRun_opt:
  "opt (mapRun e sched s) = opt s \<and> length (mappers (mapRun e sched s)) = length (mappers s)"
proof (induction sched arbitrary: s)
  case Nil
  then show ?case by simp
next
  case (Cons t ts)
  show ?case
  proof (cases "mapStep e t s")
    case None
    with Cons show ?thesis by (simp add: mapRun_Cons)
  next
    case (Some s')
    with Cons.IH [of s'] mapStep_opt [OF Some] show ?thesis by (simp add: mapRun_Cons)
  qed
qed

lemma newLoader_opt:
  "newLoader e op = Inr s \<Longrightarrow> opt s = op \<and> int (length (mappers s)) = numGoroutines op"
  by (auto simp: newLoader_def split: option.splits if_splits)

lemma mapStep_invOut:
  assumes inv: "mapInv e s" and io: "invOut e s" and st: "mapStep e t s = Some s'"
  shows "invOut e s'"
proof (cases t)
  case TMain
  with st have m: "mainStep e s = Some s'" by (simp add: mapStep_def split: if_splits)
  have "pc s = PTempDir \<Longrightarrow> \<not> writerDone s"
    using mapInv_parts(1) [OF inv] by (auto simp: invCtl_def)
  with m io show ?thesis
    by (cases rule: mainStep_cases) (auto simp: invOut_def split: if_splits)
next
  case TWriter
  with st have "writerStep e s = Some s'" by (simp add: mapStep_def split: if_splits)
  then show ?thesis using io
    by (cases rule: writerStep_cases) (auto simp: invOut_def split: if_splits)
next
  case (TMapper i)
  with st have "mapperStep e i s = Some s'" by (simp add: mapStep_def split: if_splits)
  then show ?thesis using io
    by (cases rule: mapperStep_cases) (auto simp: invOut_def split: if_splits)
next
  case TShuffle
  with st show ?thesis by (simp add: mapStep_def split: if_splits)
next
  case (TReducer i)
  with st show ?thesis by (simp add: mapStep_def split: if_splits)
qed

lemma mapRun_invOut: "mapInv e s \<Longrightarrow> invOut e s \<Longrightarrow> invOut e (mapRun e sched s)"
proof (induction sched arbitrary: s)
  case Nil
  then show ?case by simp
next
  case (Cons t ts)
  show ?case
  proof (cases "mapStep e t s")
    case None
    with Cons show ?thesis by (simp add: mapRun_Cons)
  next
    case (Some s')
    with Cons.prems have "mapInv e s'" "invOut e s'"
      by (auto intro: mapStep_mapInv mapStep_invOut)
    with Cons.IH Some show ?thesis by (simp add: mapRun_Cons)
  qed
qed

lemma newLoader_invOut: "newLoader e op = Inr s \<Longrightarrow> invOut e s"
  by (auto simp: newLoader_def invOut_def split: option.splits if_splits)

text \<open>After a fatal error nothing moves.\<close>

lemma mapStep_fatal: "fatal s \<noteq> None \<Longrightarrow> mapStep e t s = None"
  by (simp add: mapStep_def)

text \<open>The states \<open>mapStage\<close> can reach from the loader \<open>newLoader\<close> returns.\<close>

lemma reachable_mapInv:
  assumes "newLoader e op = Inr s0"
  shows "mapInv e (mapRun e sched s0)" "invOut e (mapRun e sched s0)"
    "opt (mapRun e sched s0) = op"
    "int (length (mappers (mapRun e sched s0))) = numGoroutines op"
  using assms newLoader_mapInv [OF assms] newLoader_invOut [OF assms] newLoader_opt [OF assms]
    mapRun_opt [of e sched s0]
  by (auto intro: mapRun_mapInv mapRun_invOut)

subsection \<open>The concrete run\<close>

lemma exNewLoader: "newLoader exEnv exOpt = Inr exInit"
  by (simp add: newLoader_def exEnv_def exOpt_def exInit_def numeral_2_eq_2)

lemma exRun: "mapRun exEnv exSched exInit = exFinal"
  by code_simp

lemma HasSuffix_iff: "HasSuffix s suf \<longleftrightarrow> (\<exists>pre. s = pre @ suf)"
proof
  assume "HasSuffix s suf"
  then have "s = take (length s - length suf) s @ suf"
    by (metis HasSuffix_def append_take_drop_id)
  then show "\<exists>pre. s = pre @ suf" ..
next
  assume "\<exists>pre. s = pre @ suf"
  then show "HasSuffix s suf" by (auto simp: HasSuffix_def)
qed

lemma exSplit: "exSplitLines exContent = [''<a> <b> <c> .'', ''<d> <e> <f> .'']"
  by code_simp

subsection \<open>Progress and termination of the map stage\<close>

text \<open>Some goroutine can move until \<open>mapStage\<close> has returned.\<close>

lemma writer_enabled:
  assumes "fatal s = None" "writerStarted s" "\<not> writerDone s"
    "postingsCh s \<noteq> [] \<or> postingsClosed s"
  shows "mapStep e TWriter s \<noteq> None"
  using assms by (cases "postingsCh s") (auto simp: mapStep_def writerStep_def)

lemma mapper_enabled:
  assumes f: "fatal s = None" and i: "i < length (mappers s)"
    and c: "invCtl s" and r2: "2 \<le> pcRank (pc s)"
    and m: "mpc (mappers s ! i) \<noteq> MIdle" "mpc (mappers s ! i) \<noteq> MExit"
    and q: "rdfCh s \<noteq> [] \<or> rdfClosed s"
  shows "\<exists>t. mapStep e t s \<noteq> None"
proof (cases "mpc (mappers s ! i)")
  case MIdle
  with m show ?thesis by simp
next
  case MRecv
  with f i q have "mapStep e (TMapper i) s \<noteq> None"
    by (cases "rdfCh s") (auto simp: mapStep_def mapperStep_def Let_def)
  then show ?thesis ..
next
  case (MSend ps)
  show ?thesis
  proof (cases ps)
    case Nil
    with MSend f i have "mapStep e (TMapper i) s \<noteq> None"
      by (simp add: mapStep_def mapperStep_def Let_def)
    then show ?thesis ..
  next
    case (Cons p ps')
    show ?thesis
    proof (cases "postingsClosed s \<or> length (postingsCh s) < chanCap")
      case True
      with MSend Cons f i have "mapStep e (TMapper i) s \<noteq> None"
        by (auto simp: mapStep_def mapperStep_def Let_def)
      then show ?thesis ..
    next
      case False
      then have ne: "postingsCh s \<noteq> []" and nc: "\<not> postingsClosed s"
        by (auto simp: chanCap_def)
      from nc c have "\<not> writerDone s" by (auto simp: invCtl_def)
      moreover from c r2 have "writerStarted s" by (simp add: invCtl_def)
      ultimately have "mapStep e TWriter s \<noteq> None"
        using f ne by (intro writer_enabled) auto
      then show ?thesis ..
    qed
  qed
next
  case MExit
  with m show ?thesis by simp
qed

lemma main_enabled:
  assumes "fatal s = None"
    and "pc s = PFeed \<longrightarrow> src s = [] \<or> length (rdfCh s) < chanCap"
    and "pc s = PWaitMappers \<longrightarrow> mapperWg s = 0"
    and "pc s = PWaitWriter \<longrightarrow> postingWriterWg s = 0"
    and "pc s \<noteq> PReturn"
  shows "mapStep e TMain s \<noteq> None"
proof (cases "pc s")
  case PFeed
  with assms show ?thesis by (cases "src s") (auto simp: mapStep_def mainStep_simps)
qed (use assms in \<open>auto simp: mapStep_def mainStep_simps split: option.splits\<close>)

lemma mapStage_progress:
  assumes inv: "mapInv e s" and f: "fatal s = None" and n: "0 < length (mappers s)"
    and p: "pc s \<noteq> PReturn"
  shows "\<exists>t. mapStep e t s \<noteq> None"
proof -
  note c = mapInv_parts(1) [OF inv] and i = mapInv_parts(2) [OF inv]
    and w = mapInv_parts(3) [OF inv] and x = mapInv_parts(4) [OF inv]
  consider (feed) "pc s = PFeed" "src s \<noteq> []" "\<not> length (rdfCh s) < chanCap"
    | (waitm) "pc s = PWaitMappers" "mapperWg s \<noteq> 0"
    | (waitw) "pc s = PWaitWriter" "postingWriterWg s \<noteq> 0"
    | (main) "pc s = PFeed \<longrightarrow> src s = [] \<or> length (rdfCh s) < chanCap"
        "pc s = PWaitMappers \<longrightarrow> mapperWg s = 0"
        "pc s = PWaitWriter \<longrightarrow> postingWriterWg s = 0"
    by atomize_elim auto
  then show ?thesis
  proof cases
    case feed
    then have ne: "rdfCh s \<noteq> []" by (auto simp: chanCap_def)
    have "mpc (mappers s ! 0) \<noteq> MIdle" using i feed n by (simp add: invIdle_def)
    moreover have "mpc (mappers s ! 0) \<noteq> MExit" using x ne n by (auto simp: invExit_def)
    ultimately show ?thesis
      using mapper_enabled [OF f n c, of e] feed ne by simp
  next
    case waitm
    with w have "exitedCount (mappers s) \<noteq> length (mappers s)" by (auto simp: invWg_def)
    then obtain j where j: "j < length (mappers s)" "mpc (mappers s ! j) \<noteq> MExit"
      by (auto simp: exitedCount_all)
    have "mpc (mappers s ! j) \<noteq> MIdle" using i waitm j by (simp add: invIdle_def)
    moreover have "rdfClosed s" using c waitm by (simp add: invCtl_def)
    ultimately show ?thesis
      using mapper_enabled [OF f j(1) c, of e] waitm j by simp
  next
    case waitw
    with c have "\<not> writerDone s" "writerStarted s" "postingsClosed s"
      by (auto simp: invCtl_def split: if_splits)
    with f have "mapStep e TWriter s \<noteq> None" by (intro writer_enabled) auto
    then show ?thesis ..
  next
    case main
    with f p have "mapStep e TMain s \<noteq> None" by (intro main_enabled) auto
    then show ?thesis ..
  qed
qed

lemma mapperWork_update:
  "i < length ms \<Longrightarrow>
     sum_list (map (\<lambda>m. mapperWork (mpc m)) (ms[i := x])) + mapperWork (mpc (ms ! i))
       = sum_list (map (\<lambda>m. mapperWork (mpc m)) ms) + mapperWork (mpc x)"
  by (rule sum_list_map_update)

text \<open>
  When the setup succeeds and the scanner reports no error, no step is fatal and every
  step takes one unit of the work that is left.
\<close>

lemma mainStep_work:
  assumes inv: "mapInv e s" and ok: "sourceRecords e (opt s) = Some (lines, False)"
    and td: "tempDir e (tmpDir (opt s)) ''bulkloader_tmp_posting_'' \<noteq> None"
    and f: "fatal s = None" and st: "mainStep e s = Some s'"
  shows "fatal s' = None \<and> mapWork e s = Suc (mapWork e s')"
  using st
proof (cases rule: mainStep_cases)
  case tempdir_fail
  with td show ?thesis by simp
next
  case (tempdir_ok d)
  with f show ?thesis by (simp add: mapWork_def pendingLines_def)
next
  case gowriter
  with f show ?thesis by (simp add: mapWork_def pendingLines_def)
next
  case open_fail
  with ok show ?thesis by (simp add: sourceRecords_def)
next
  case (open_ok g)
  with f show ?thesis by (simp add: mapWork_def pendingLines_def)
next
  case addmappers
  with f show ?thesis by (simp add: mapWork_def pendingLines_def)
next
  case (gomapper i)
  have "mpc (mappers s ! i) = MIdle"
    using mapInv_parts(2) [OF inv] gomapper by (auto simp: invIdle_def)
  with mapperWork_update [of i "mappers s" "(mappers s ! i)\<lparr>mpc := MRecv\<rparr>"] gomapper
  have "sum_list (map (\<lambda>m. mapperWork (mpc m))
          ((mappers s)[i := (mappers s ! i)\<lparr>mpc := MRecv\<rparr>]))
        = sum_list (map (\<lambda>m. mapperWork (mpc m)) (mappers s))" by simp
  with f gomapper show ?thesis by (simp add: mapWork_def pendingLines_def)
next
  case (gomappers_end i)
  with f show ?thesis by (simp add: mapWork_def pendingLines_def)
next
  case scanner_fail
  with mapInv_parts(5) [OF inv] ok show ?thesis
    by (simp add: invData_def sourceRecords_def)
next
  case (scanner_ok gz toks err)
  with mapInv_parts(5) [OF inv] ok have "toks = lines"
    by (simp add: invData_def sourceRecords_def)
  with f scanner_ok ok show ?thesis by (simp add: mapWork_def pendingLines_def)
next
  case feed_end
  with f show ?thesis by (simp add: mapWork_def pendingLines_def)
next
  case (feed_send l ls)
  with f show ?thesis by (simp add: mapWork_def pendingLines_def)
next
  case check_fail
  with mapInv_parts(5) [OF inv] ok show ?thesis
    by (auto simp: invData_def sourceRecords_def split: option.splits)
next
  case check_ok
  with f show ?thesis by (simp add: mapWork_def pendingLines_def)
next
  case closerdf
  with f show ?thesis by (simp add: mapWork_def pendingLines_def)
next
  case waitmappers
  with f show ?thesis by (simp add: mapWork_def pendingLines_def)
next
  case closepostings
  with f show ?thesis by (simp add: mapWork_def pendingLines_def)
next
  case waitwriter
  with f show ?thesis by (simp add: mapWork_def pendingLines_def)
qed

lemma mapperStep_work:
  assumes inv: "mapInv e s" and f: "fatal s = None" and st: "mapperStep e i s = Some s'"
  shows "fatal s' = None \<and> mapWork e s = Suc (mapWork e s')"
  using st
proof (cases rule: mapperStep_cases)
  case (recv l ls)
  with mapperWork_update
         [of i "mappers s" "\<lparr>mpc = MSend (transformer e l),
                               observed = observed (mappers s ! i) @ [l]\<rparr>"]
  have "sum_list (map (\<lambda>m. mapperWork (mpc m)) (mappers s')) + 1
        = sum_list (map (\<lambda>m. mapperWork (mpc m)) (mappers s))
          + (2 * length (transformer e l) + 2)" by simp
  with f recv show ?thesis by (simp add: mapWork_def pendingLines_def recWork_def)
next
  case exit
  with mapperWork_update [of i "mappers s" "(mappers s ! i)\<lparr>mpc := MExit\<rparr>"]
  have "sum_list (map (\<lambda>m. mapperWork (mpc m)) (mappers s')) + 1
        = sum_list (map (\<lambda>m. mapperWork (mpc m)) (mappers s))" by simp
  with f exit show ?thesis by (simp add: mapWork_def pendingLines_def)
next
  case sent
  with mapperWork_update [of i "mappers s" "(mappers s ! i)\<lparr>mpc := MRecv\<rparr>"]
  have "sum_list (map (\<lambda>m. mapperWork (mpc m)) (mappers s')) + 1
        = sum_list (map (\<lambda>m. mapperWork (mpc m)) (mappers s))" by simp
  with f sent show ?thesis by (simp add: mapWork_def pendingLines_def)
next
  case (panic p ps)
  with running_facts [OF mapInv_parts(4) [OF inv], of i] mapInv_parts(1) [OF inv]
  show ?thesis by (simp add: invCtl_def)
next
  case (send p ps)
  with mapperWork_update [of i "mappers s" "(mappers s ! i)\<lparr>mpc := MSend ps\<rparr>"]
  have "sum_list (map (\<lambda>m. mapperWork (mpc m)) (mappers s')) + 2
        = sum_list (map (\<lambda>m. mapperWork (mpc m)) (mappers s))" by simp
  with f send show ?thesis by (simp add: mapWork_def pendingLines_def)
qed

lemma writerStep_work:
  assumes f: "fatal s = None" and st: "writerStep e s = Some s'"
  shows "fatal s' = None \<and> mapWork e s = Suc (mapWork e s')"
  using st
  by (cases rule: writerStep_cases) (use f in \<open>simp_all add: mapWork_def pendingLines_def\<close>)

lemma mapStep_work:
  assumes inv: "mapInv e s" and ok: "sourceRecords e (opt s) = Some (lines, False)"
    and td: "tempDir e (tmpDir (opt s)) ''bulkloader_tmp_posting_'' \<noteq> None"
    and st: "mapStep e t s = Some s'"
  shows "fatal s' = None \<and> mapWork e s = Suc (mapWork e s')"
proof -
  have f: "fatal s = None" using st by (simp add: mapStep_def split: if_splits)
  show ?thesis
  proof (cases t)
    case TMain
    with st f have "mainStep e s = Some s'" by (simp add: mapStep_def)
    from mainStep_work [OF inv ok td f this] show ?thesis .
  next
    case TWriter
    with st f have "writerStep e s = Some s'" by (simp add: mapStep_def)
    from writerStep_work [OF f this] show ?thesis .
  next
    case (TMapper i)
    with st f have "mapperStep e i s = Some s'" by (simp add: mapStep_def)
    from mapperStep_work [OF inv f this] show ?thesis .
  next
    case TShuffle
    with st f show ?thesis by (simp add: mapStep_def)
  next
    case (TReducer i)
    with st f show ?thesis by (simp add: mapStep_def)
  qed
qed

lemma mapRun_append: "mapRun e (ts @ us) s = mapRun e us (mapRun e ts s)"
  by (simp add: mapRun_def)

text \<open>Along any schedule, the moves made and the work left add up to the work at the start.\<close>

lemma mapRun_work:
  assumes "mapInv e s" "sourceRecords e (opt s) = Some (lines, False)"
    "tempDir e (tmpDir (opt s)) ''bulkloader_tmp_posting_'' \<noteq> None" "fatal s = None"
  shows "fatal (mapRun e sched s) = None \<and>
         mapMoves e sched s + mapWork e (mapRun e sched s) = mapWork e s"
  using assms
proof (induction sched arbitrary: s)
  case Nil
  then show ?case by simp
next
  case (Cons t ts)
  show ?case
  proof (cases "mapStep e t s")
    case None
    with Cons show ?thesis by (simp add: mapRun_Cons)
  next
    case (Some s')
    note w = mapStep_work [OF Cons.prems(1,2,3) Some]
    have i: "mapInv e s'" using Cons.prems(1) Some by (rule mapStep_mapInv)
    have o: "opt s' = opt s" using mapStep_opt [OF Some] by simp
    from Cons.IH [OF i] Cons.prems(2,3) o w
    have "fatal (mapRun e ts s') = None \<and>
          mapMoves e ts s' + mapWork e (mapRun e ts s') = mapWork e s'" by simp
    with Some w show ?thesis by (simp add: mapRun_Cons)
  qed
qed

text \<open>From every such state some schedule takes \<open>mapStage\<close> to its return.\<close>

lemma mapStage_completes:
  assumes "mapInv e s" "sourceRecords e (opt s) = Some (lines, False)"
    "tempDir e (tmpDir (opt s)) ''bulkloader_tmp_posting_'' \<noteq> None" "fatal s = None"
    "0 < length (mappers s)"
  shows "\<exists>sched. pc (mapRun e sched s) = PReturn"
  using assms
proof (induction "mapWork e s" arbitrary: s rule: less_induct)
  case less
  show ?case
  proof (cases "pc s = PReturn")
    case True
    then have "pc (mapRun e [] s) = PReturn" by simp
    then show ?thesis ..
  next
    case False
    from mapStage_progress [OF less.prems(1,4,5) False]
    obtain t s' where st: "mapStep e t s = Some s'" by auto
    note w = mapStep_work [OF less.prems(1,2,3) st]
    have i: "mapInv e s'" using less.prems(1) st by (rule mapStep_mapInv)
    note o = mapStep_opt [OF st]
    have "\<exists>sched. pc (mapRun e sched s') = PReturn"
      using less.hyps [of s'] w i o less.prems(2,3,5) by simp
    then obtain sched where "pc (mapRun e sched s') = PReturn" ..
    with st have "pc (mapRun e (t # sched) s) = PReturn" by (simp add: mapRun_Cons)
    then show ?thesis ..
  qed
qed

text \<open>Past \<open>mapperWg.Wait\<close>, with at least one mapper, the mappers have received every line.\<close>

lemma past_wait_all_observed:
  assumes n0: "newLoader e op = Inr s0" and s: "s = mapRun e sched s0"
    and n: "0 < numGoroutines op" and p: "10 \<le> pcRank (pc s)"
  shows "sourceRecords e op = Some (enqueued s, False) \<and> rdfCh s = [] \<and>
         observedAll (mappers s) = mset (enqueued s)"
proof -
  note r = reachable_mapInv [OF n0, of sched, folded s]
  note d = mapInv_parts(5) [OF r(1)]
  have len: "0 < length (mappers s)" using n r(4) by (cases "mappers s") auto
  have "mpc (mappers s ! 0) = MExit"
    using mapInv_parts(4) [OF r(1)] p len by (simp add: invExit_def)
  with len have e: "rdfCh s = []"
    using mapInv_parts(4) [OF r(1)] by (auto simp: invExit_def)
  have c: "src s = []" "\<not> srcErr s"
    using mapInv_parts(1) [OF r(1)] p by (simp_all add: invCtl_def)
  have "sourceRecords e op = Some (enqueued s, False)"
    using d r(3) p c by (auto simp: invData_def sourceRecords_def)
  moreover have "observedAll (mappers s) = mset (enqueued s)"
    using d e by (simp add: invData_def)
  ultimately show ?thesis using e by simp
qed

lemma newLoader_fatal: "newLoader e op = Inr s0 \<Longrightarrow> fatal s0 = None"
  by (auto simp: newLoader_def split: option.splits if_splits)

lemma exWork: "mapWork exEnv exInit = 27" "mapMoves exEnv exSched exInit = 27"
  "mapWork exEnv exFinal = 0"
  by code_simp+

section \<open>Properties of the reduce stage\<close>

subsection \<open>The steps and the invariant\<close>

lemma reduceMainStep_cases:
  assumes "reduceMainStep s = Some s'"
  obtains
    (start) "rpc s = RStart" "s' = s\<lparr>shuffleStarted := True, rpc := RRange\<rparr>"
  | (recv) b bs where "rpc s = RRange" "reduceCh s = b # bs"
      "s' = s\<lparr>batch := b, reduceCh := bs, rpc := RAcquire\<rparr>"
  | (drained) "rpc s = RRange" "reduceCh s = []" "reduceClosed s" "s' = s\<lparr>rpc := RWait\<rparr>"
  | (acquire) "rpc s = RAcquire" "pending s < width s"
      "s' = s\<lparr>pending := pending s + 1, rpc := RSpawn\<rparr>"
  | (spawn) "rpc s = RSpawn"
      "s' = s\<lparr>reduceWg := reduceWg s + 1, workers := workers s @ [WReduce], rpc := RRange\<rparr>"
  | (joined) "rpc s = RWait" "reduceWg s = 0" "s' = s\<lparr>rpc := REnd\<rparr>"
  using assms unfolding reduceMainStep_def
  by (cases "rpc s") (auto split: list.splits if_splits)

lemma shuffleStep_cases:
  assumes "shuffleStep s = Some s'"
  obtains
    (send) b bs where "shuffleStarted s" "\<not> reduceClosed s" "toSend s = b # bs"
      "length (reduceCh s) < reduceChCap"
      "s' = s\<lparr>reduceCh := reduceCh s @ [b], toSend := bs, emitted := emitted s + 1\<rparr>"
  | (close) "shuffleStarted s" "\<not> reduceClosed s" "toSend s = []"
      "s' = s\<lparr>reduceClosed := True\<rparr>"
  using assms unfolding shuffleStep_def
  by (auto split: list.splits if_splits)

lemma workerStep_cases:
  assumes "workerStep e i s = Some s'"
  obtains
    (returned) "i < length (workers s)" "workers s ! i = WReduce" "reduceReturns e (batch s)"
      "s' = s\<lparr>workers := (workers s)[i := WRelease]\<rparr>"
  | (panicked) "i < length (workers s)" "workers s ! i = WReduce" "\<not> reduceReturns e (batch s)"
      "s' = s\<lparr>workers := (workers s)[i := WPanic], crashed := True\<rparr>"
  | (released) "i < length (workers s)" "workers s ! i = WRelease" "0 < pending s"
      "s' = s\<lparr>pending := pending s - 1, workers := (workers s)[i := WDone]\<rparr>"
  | (finished) "i < length (workers s)" "workers s ! i = WDone"
      "s' = s\<lparr>reduceWg := reduceWg s - 1, workers := (workers s)[i := WExit]\<rparr>"
proof -
  have i: "i < length (workers s)"
    using assms by (simp add: workerStep_def split: if_splits)
  show ?thesis
  proof (cases "workers s ! i")
    case WReduce
    with assms i that(1,2) show ?thesis
      by (cases "reduceReturns e (batch s)") (simp_all add: workerStep_def)
  next
    case WRelease
    with assms i that(3) show ?thesis
      by (cases "0 < pending s") (simp_all add: workerStep_def)
  next
    case WDone
    with assms i that(4) show ?thesis by (simp add: workerStep_def)
  next
    case WExit
    with assms i show ?thesis by (simp add: workerStep_def)
  next
    case WPanic
    with assms i show ?thesis by (simp add: workerStep_def)
  qed
qed

lemma holderCount_update:
  assumes "i < length ws"
  shows "holderCount (ws[i := w]) + (if ws ! i = WReduce \<or> ws ! i = WRelease \<or> ws ! i = WPanic then 1 else 0)
         = holderCount ws + (if w = WReduce \<or> w = WRelease \<or> w = WPanic then 1 else 0)"
  using filter_count_update [OF assms, of "\<lambda>w. w = WReduce \<or> w = WRelease \<or> w = WPanic" w]
  by (simp add: holderCount_def)

lemma reduceMainStep_reduceInv:
  assumes "reduceInv s" "reduceMainStep s = Some s'"
  shows "reduceInv s'"
  using assms(2)
  by (cases rule: reduceMainStep_cases)
     (use assms(1) in \<open>auto simp: reduceInv_def holderCount_def\<close>)

lemma shuffleStep_reduceInv:
  assumes "reduceInv s" "shuffleStep s = Some s'"
  shows "reduceInv s'"
  using assms(2)
  by (cases rule: shuffleStep_cases) (use assms(1) in \<open>auto simp: reduceInv_def\<close>)

lemma workerStep_reduceInv:
  assumes "reduceInv s" "workerStep e i s = Some s'"
  shows "reduceInv s'"
  using assms(2)
proof (cases rule: workerStep_cases)
  case returned
  then have "holderCount ((workers s)[i := WRelease]) = holderCount (workers s)"
    using holderCount_update [of i "workers s" WRelease] by simp
  with assms(1) returned show ?thesis by (simp add: reduceInv_def)
next
  case panicked
  then have "holderCount ((workers s)[i := WPanic]) = holderCount (workers s)"
    using holderCount_update [of i "workers s" WPanic] by simp
  with assms(1) panicked show ?thesis by (simp add: reduceInv_def)
next
  case released
  then have "holderCount ((workers s)[i := WDone]) + 1 = holderCount (workers s)"
    using holderCount_update [of i "workers s" WDone] by simp
  with assms(1) released show ?thesis by (auto simp: reduceInv_def)
next
  case finished
  then have "holderCount ((workers s)[i := WExit]) = holderCount (workers s)"
    using holderCount_update [of i "workers s" WExit] by simp
  with assms(1) finished show ?thesis by (simp add: reduceInv_def)
qed

lemma reduceStep_reduceInv:
  assumes "reduceInv s" "reduceStep e t s = Some s'"
  shows "reduceInv s'"
proof (cases t)
  case TMain
  with assms(2) have "reduceMainStep s = Some s'" by (simp add: reduceStep_def split: if_splits)
  with assms(1) show ?thesis by (rule reduceMainStep_reduceInv)
next
  case TShuffle
  with assms(2) have "shuffleStep s = Some s'" by (simp add: reduceStep_def split: if_splits)
  with assms(1) show ?thesis by (rule shuffleStep_reduceInv)
next
  case (TReducer i)
  with assms(2) have "workerStep e i s = Some s'" by (simp add: reduceStep_def split: if_splits)
  with assms(1) show ?thesis by (rule workerStep_reduceInv)
next
  case TWriter
  with assms(2) show ?thesis by (simp add: reduceStep_def split: if_splits)
next
  case (TMapper i)
  with assms(2) show ?thesis by (simp add: reduceStep_def split: if_splits)
qed

lemma reduceRun_Nil [simp]: "reduceRun e [] s = s"
  by (simp add: reduceRun_def)

lemma reduceRun_Cons:
  "reduceRun e (t # ts) s
     = reduceRun e ts (case reduceStep e t s of None \<Rightarrow> s | Some s' \<Rightarrow> s')"
  by (simp add: reduceRun_def)

lemma reduceRun_reduceInv: "reduceInv s \<Longrightarrow> reduceInv (reduceRun e sched s)"
proof (induction sched arbitrary: s)
  case Nil
  then show ?case by simp
next
  case (Cons t ts)
  show ?case
  proof (cases "reduceStep e t s")
    case None
    with Cons show ?thesis by (simp add: reduceRun_Cons)
  next
    case (Some s')
    with Cons.prems have "reduceInv s'" by (auto intro: reduceStep_reduceInv)
    with Cons.IH Some show ?thesis by (simp add: reduceRun_Cons)
  qed
qed

lemma reduceInit_reduceInv: "reduceInv (reduceInit e ld)"
  by (simp add: reduceInv_def reduceInit_def holderCount_def)

text \<open>No step changes the capacity of \<open>pending\<close>.\<close>

lemma reduceStep_width: "reduceStep e t s = Some s' \<Longrightarrow> width s' = width s"
proof (cases t)
  case TMain
  assume "reduceStep e t s = Some s'"
  with TMain have "reduceMainStep s = Some s'" by (simp add: reduceStep_def split: if_splits)
  then show ?thesis by (cases rule: reduceMainStep_cases) auto
next
  case TShuffle
  assume "reduceStep e t s = Some s'"
  with TShuffle have "shuffleStep s = Some s'" by (simp add: reduceStep_def split: if_splits)
  then show ?thesis by (cases rule: shuffleStep_cases) auto
next
  case (TReducer i)
  assume "reduceStep e t s = Some s'"
  with TReducer have "workerStep e i s = Some s'" by (simp add: reduceStep_def split: if_splits)
  then show ?thesis by (cases rule: workerStep_cases) auto
qed (simp_all add: reduceStep_def split: if_splits)

lemma reduceRun_width: "width (reduceRun e sched s) = width s"
proof (induction sched arbitrary: s)
  case Nil
  then show ?case by simp
next
  case (Cons t ts)
  show ?case
  proof (cases "reduceStep e t s")
    case None
    with Cons show ?thesis by (simp add: reduceRun_Cons)
  next
    case (Some s')
    with Cons.IH [of s'] reduceStep_width [OF Some] show ?thesis by (simp add: reduceRun_Cons)
  qed
qed

lemma activeCount_le_holderCount: "activeCount ws \<le> holderCount ws"
  by (induction ws) (auto simp: activeCount_def holderCount_def)

lemma reachable_reduceInv:
  "reduceInv (reduceRun e sched (reduceInit e ld))"
  "width (reduceRun e sched (reduceInit e ld)) = nat (numGoroutines (opt ld))"
  using reduceRun_reduceInv [OF reduceInit_reduceInv, of e sched e ld]
    reduceRun_width [of e sched "reduceInit e ld"]
  by (simp_all add: reduceInit_def)

lemma length_le_reduced_holder: "length ws \<le> reducedCount ws + holderCount ws"
proof (induction ws)
  case Nil
  then show ?case by simp
next
  case (Cons w ws)
  then show ?case by (cases w) (simp_all add: reducedCount_def holderCount_def)
qed

lemma holderCount_pos:
  assumes "i < length ws" "ws ! i = WReduce \<or> ws ! i = WRelease \<or> ws ! i = WPanic"
  shows "0 < holderCount ws"
proof -
  have "ws ! i \<in> set (filter (\<lambda>w. w = WReduce \<or> w = WRelease \<or> w = WPanic) ws)"
    using assms by simp
  then show ?thesis unfolding holderCount_def by (metis length_pos_if_in_set)
qed

lemma holderCount_zero:
  assumes "\<forall>i < length ws. ws ! i = WDone \<or> ws ! i = WExit"
  shows "holderCount ws = 0"
proof -
  have "\<forall>w \<in> set ws. w = WDone \<or> w = WExit"
    using assms by (auto simp: in_set_conv_nth)
  then show ?thesis by (auto simp: holderCount_def filter_empty_conv)
qed

lemma exReduceRuns:
  "reduceRun exEnv exSchedAhead exR0
     = \<lparr>rpc = RAcquire, width = 2, batch = [3], toSend = [[7]], emitted = 6,
        shuffleStarted = True, reduceCh = [[4], [5], [6]], reduceClosed = False,
        pending = 2, reduceWg = 2, workers = [WReduce, WReduce], crashed = False\<rparr>"
  "reduceRun exEnv exSchedOne exR0
     = \<lparr>rpc = RRange, width = 2, batch = [1], toSend = [[2], [3], [4], [5], [6], [7]],
        emitted = 1, shuffleStarted = True, reduceCh = [], reduceClosed = False,
        pending = 0, reduceWg = 0, workers = [WExit], crashed = False\<rparr>"
  "reduceRun exEnvPanic exSchedPanic exR0
     = \<lparr>rpc = RRange, width = 2, batch = [1], toSend = [[2], [3], [4], [5], [6], [7]],
        emitted = 1, shuffleStarted = True, reduceCh = [], reduceClosed = False,
        pending = 1, reduceWg = 1, workers = [WPanic], crashed = True\<rparr>"
  by code_simp+

lemma reduceStep_invCrash:
  assumes "invCrash s" "reduceStep e t s = Some s'"
  shows "invCrash s'"
proof -
  have nc: "\<not> crashed s" using assms(2) by (simp add: reduceStep_def split: if_splits)
  with assms(1) have np: "\<forall>j < length (workers s). workers s ! j \<noteq> WPanic"
    by (auto simp: invCrash_def)
  show ?thesis
  proof (cases t)
    case TMain
    with assms(2) have "reduceMainStep s = Some s'" by (simp add: reduceStep_def split: if_splits)
    then show ?thesis
      by (cases rule: reduceMainStep_cases)
         (use nc np in \<open>auto simp: invCrash_def nth_append\<close>)
  next
    case TShuffle
    with assms(2) have "shuffleStep s = Some s'" by (simp add: reduceStep_def split: if_splits)
    then show ?thesis
      by (cases rule: shuffleStep_cases) (use nc np in \<open>auto simp: invCrash_def\<close>)
  next
    case (TReducer i)
    with assms(2) have "workerStep e i s = Some s'" by (simp add: reduceStep_def split: if_splits)
    then show ?thesis
    proof (cases rule: workerStep_cases)
      case returned
      with nc np show ?thesis by (auto simp: invCrash_def nth_list_update)
    next
      case panicked
      then show ?thesis by (auto simp: invCrash_def nth_list_update)
    next
      case released
      with nc np show ?thesis by (auto simp: invCrash_def nth_list_update)
    next
      case finished
      with nc np show ?thesis by (auto simp: invCrash_def nth_list_update)
    qed
  next
    case TWriter
    with assms(2) show ?thesis by (simp add: reduceStep_def split: if_splits)
  next
    case (TMapper i)
    with assms(2) show ?thesis by (simp add: reduceStep_def split: if_splits)
  qed
qed

lemma reduceRun_invCrash: "invCrash s \<Longrightarrow> invCrash (reduceRun e sched s)"
proof (induction sched arbitrary: s)
  case Nil
  then show ?case by simp
next
  case (Cons t ts)
  show ?case
  proof (cases "reduceStep e t s")
    case None
    with Cons show ?thesis by (simp add: reduceRun_Cons)
  next
    case (Some s')
    with Cons.prems have "invCrash s'" by (auto intro: reduceStep_invCrash)
    with Cons.IH Some show ?thesis by (simp add: reduceRun_Cons)
  qed
qed

lemma reachable_invCrash: "invCrash (reduceRun e sched (reduceInit e ld))"
  by (rule reduceRun_invCrash) (simp add: invCrash_def reduceInit_def)

lemma exReduceSteps:
  "reduceRun exEnv (take 5 exSchedOne) exR0
     = \<lparr>rpc = RRange, width = 2, batch = [1], toSend = [[2], [3], [4], [5], [6], [7]],
        emitted = 1, shuffleStarted = True, reduceCh = [], reduceClosed = False,
        pending = 1, reduceWg = 1, workers = [WReduce], crashed = False\<rparr>"
  "reduceRun exEnv (take 6 exSchedOne) exR0
     = \<lparr>rpc = RRange, width = 2, batch = [1], toSend = [[2], [3], [4], [5], [6], [7]],
        emitted = 1, shuffleStarted = True, reduceCh = [], reduceClosed = False,
        pending = 1, reduceWg = 1, workers = [WRelease], crashed = False\<rparr>"
  "reduceRun exEnvPanic (take 5 exSchedPanic) exR0
     = \<lparr>rpc = RRange, width = 2, batch = [1], toSend = [[2], [3], [4], [5], [6], [7]],
        emitted = 1, shuffleStarted = True, reduceCh = [], reduceClosed = False,
        pending = 1, reduceWg = 1, workers = [WReduce], crashed = False\<rparr>"
  by code_simp+

lemma exR0_panic: "reduceInit exEnvPanic exFinal = exR0"
  by (simp add: exR0_def reduceInit_def exEnvPanic_def)

section \<open>Properties of the orchestrator and of cleanup\<close>

lemma loaderStep_phaseInv:
  assumes "phaseInv e op ph" "loaderStep e t ph = Some ph'"
  shows "phaseInv e op ph'"
proof (cases ph)
  case (Mapping s)
  show ?thesis
  proof (cases "t = TMain \<and> pc s = PReturn \<and> fatal s = None")
    case True
    with assms Mapping show ?thesis by (auto simp: loaderStep_def phaseInv_def)
  next
    case False
    with assms(2) Mapping obtain s' where s': "mapStep e t s = Some s'" "ph' = Mapping s'"
      by (auto simp: loaderStep_def)
    from assms(1) Mapping have "mapInv e s" "invOut e s" "opt s = op"
      by (simp_all add: phaseInv_def)
    with s' mapStep_mapInv [OF _ s'(1)] mapStep_invOut [OF _ _ s'(1)] mapStep_opt [OF s'(1)]
    show ?thesis by (simp add: phaseInv_def)
  qed
next
  case (Reducing s r)
  with assms show ?thesis by (auto simp: loaderStep_def phaseInv_def)
qed

lemma loaderRun_Nil [simp]: "loaderRun e [] ph = ph"
  by (simp add: loaderRun_def)

lemma loaderRun_Cons:
  "loaderRun e (t # ts) ph
     = loaderRun e ts (case loaderStep e t ph of None \<Rightarrow> ph | Some ph' \<Rightarrow> ph')"
  by (simp add: loaderRun_def)

lemma loaderRun_phaseInv: "phaseInv e op ph \<Longrightarrow> phaseInv e op (loaderRun e sched ph)"
proof (induction sched arbitrary: ph)
  case Nil
  then show ?case by simp
next
  case (Cons t ts)
  show ?case
  proof (cases "loaderStep e t ph")
    case None
    with Cons show ?thesis by (simp add: loaderRun_Cons)
  next
    case (Some ph')
    with Cons.prems have "phaseInv e op ph'" by (auto intro: loaderStep_phaseInv)
    with Cons.IH Some show ?thesis by (simp add: loaderRun_Cons)
  qed
qed

lemma newLoader_phaseInv: "newLoader e op = Inr s0 \<Longrightarrow> phaseInv e op (Mapping s0)"
  using newLoader_mapInv [of e op s0] newLoader_invOut [of e op s0] newLoader_opt [of e op s0]
  by (simp add: phaseInv_def)

lemma exLoaderRun: "loaderRun exEnv (exSched @ [TMain]) (Mapping exInit) = Reducing exFinal exR0"
  by code_simp

subsection \<open>Every reachable state of the map stage\<close>

text \<open>
  Claim C1. In every state \<open>mapStage\<close> can reach, whatever the schedule, the records sent
  on the input queue are those still in the queue plus those the mappers have received,
  and they are a prefix of the lines of the source. Once the main goroutine is past
  \<open>mapperWg.Wait\<close> (with at least one mapper), the input queue is empty, every line of
  the source has been sent, and the records the mappers have received are the lines of
  the source, each as often as it occurs there: their number is the number of lines.
  And \<open>mapStage\<close> gets there: when the temporary directory can be created and the source
  can be opened and scanned without error, no step is fatal, every move of a goroutine
  takes one unit of a finite amount of work, some goroutine can move as long as
  \<open>mapStage\<close> has not returned, and from every reachable state some schedule takes
  \<open>mapStage\<close> to its return, where the mappers have received exactly the lines of the
  source.
\<close>

theorem mapStage_records_exactly_once:
  assumes "newLoader e op = Inr s0" and "s = mapRun e sched s0"
  shows "mset (enqueued s) = mset (rdfCh s) + observedAll (mappers s) \<and>
         (6 \<le> pcRank (pc s) \<longrightarrow>
            (\<exists>err. sourceRecords e op = Some (enqueued s @ src s, err))) \<and>
         (0 < numGoroutines op \<and> 10 \<le> pcRank (pc s) \<longrightarrow>
            (\<exists>lines. sourceRecords e op = Some (lines, False) \<and>
               enqueued s = lines \<and> rdfCh s = [] \<and>
               observedAll (mappers s) = mset lines \<and>
               size (observedAll (mappers s)) = length lines)) \<and>
         (0 < numGoroutines op \<and> sourceRecords e op = Some (lines, False) \<and>
          tempDir e (tmpDir op) ''bulkloader_tmp_posting_'' \<noteq> None \<longrightarrow>
            fatal s = None \<and>
            mapMoves e sched s0 + mapWork e s = mapWork e s0 \<and>
            (pc s \<noteq> PReturn \<longrightarrow> (\<exists>t. mapStep e t s \<noteq> None)) \<and>
            (\<exists>more. pc (mapRun e more s) = PReturn \<and>
               enqueued (mapRun e more s) = lines \<and>
               rdfCh (mapRun e more s) = [] \<and>
               observedAll (mappers (mapRun e more s)) = mset lines \<and>
               size (observedAll (mappers (mapRun e more s))) = length lines))"
proof -
  note r = reachable_mapInv [OF assms(1), of sched, folded assms(2)]
  note d = mapInv_parts(5) [OF r(1)]
  note o0 = newLoader_opt [OF assms(1)]
  have src: "6 \<le> pcRank (pc s) \<Longrightarrow> sourceRecords e op = Some (enqueued s @ src s, srcErr s)"
    using d r(3) by (auto simp: invData_def sourceRecords_def)
  have cons: "mset (enqueued s) = mset (rdfCh s) + observedAll (mappers s)"
    using d by (simp add: invData_def)
  have fin: "\<exists>lines. sourceRecords e op = Some (lines, False) \<and>
               enqueued s = lines \<and> rdfCh s = [] \<and>
               observedAll (mappers s) = mset lines \<and>
               size (observedAll (mappers s)) = length lines"
    if "0 < numGoroutines op" "10 \<le> pcRank (pc s)"
    using past_wait_all_observed [OF assms that] by simp
  have live: "fatal s = None \<and>
            mapMoves e sched s0 + mapWork e s = mapWork e s0 \<and>
            (pc s \<noteq> PReturn \<longrightarrow> (\<exists>t. mapStep e t s \<noteq> None)) \<and>
            (\<exists>more. pc (mapRun e more s) = PReturn \<and>
               enqueued (mapRun e more s) = lines \<and>
               rdfCh (mapRun e more s) = [] \<and>
               observedAll (mappers (mapRun e more s)) = mset lines \<and>
               size (observedAll (mappers (mapRun e more s))) = length lines)"
    if n: "0 < numGoroutines op" and ok: "sourceRecords e op = Some (lines, False)"
      and td: "tempDir e (tmpDir op) ''bulkloader_tmp_posting_'' \<noteq> None"
  proof -
    have w: "fatal s = None \<and> mapMoves e sched s0 + mapWork e s = mapWork e s0"
      using mapRun_work [OF newLoader_mapInv [OF assms(1)], of lines sched]
        ok td o0 newLoader_fatal [OF assms(1)] assms(2) by simp
    have len: "0 < length (mappers s)" using n r(4) by (cases "mappers s") auto
    have pr: "\<exists>t. mapStep e t s \<noteq> None" if "pc s \<noteq> PReturn"
      using mapStage_progress [OF r(1) _ len that] w by simp
    from mapStage_completes [OF r(1), of lines] ok td r(3) w len
    obtain more where m: "pc (mapRun e more s) = PReturn" by auto
    have a: "mapRun e more s = mapRun e (sched @ more) s0"
      by (simp add: mapRun_append assms(2))
    from m have "10 \<le> pcRank (pc (mapRun e more s))" by simp
    from past_wait_all_observed [OF assms(1) a n this] ok
    have "enqueued (mapRun e more s) = lines \<and> rdfCh (mapRun e more s) = [] \<and>
          observedAll (mappers (mapRun e more s)) = mset lines" by simp
    with m have "pc (mapRun e more s) = PReturn \<and>
               enqueued (mapRun e more s) = lines \<and>
               rdfCh (mapRun e more s) = [] \<and>
               observedAll (mappers (mapRun e more s)) = mset lines \<and>
               size (observedAll (mappers (mapRun e more s))) = length lines" by simp
    then have "\<exists>more. pc (mapRun e more s) = PReturn \<and>
               enqueued (mapRun e more s) = lines \<and>
               rdfCh (mapRun e more s) = [] \<and>
               observedAll (mappers (mapRun e more s)) = mset lines \<and>
               size (observedAll (mappers (mapRun e more s))) = length lines" ..
    with w pr show ?thesis by blast
  qed
  from cons src fin live show ?thesis by blast
qed

text \<open>
  The concrete run: two lines, two mappers, one of which receives both records. The 27
  picks of the schedule all move a goroutine, and they are the work at the start; from
  the initial loader, too, some schedule takes \<open>mapStage\<close> to its return.
\<close>

theorem mapStage_records_exactly_once_witness:
  "newLoader exEnv exOpt = Inr exInit \<and> 0 < numGoroutines exOpt \<and>
   tempDir exEnv (tmpDir exOpt) ''bulkloader_tmp_posting_'' \<noteq> None \<and>
   10 \<le> pcRank (pc (mapRun exEnv exSched exInit)) \<and>
   sourceRecords exEnv exOpt = Some ([''<a> <b> <c> .'', ''<d> <e> <f> .''], False) \<and>
   rdfCh (mapRun exEnv exSched exInit) = [] \<and>
   observedAll (mappers (mapRun exEnv exSched exInit))
     = mset [''<a> <b> <c> .'', ''<d> <e> <f> .''] \<and>
   size (observedAll (mappers (mapRun exEnv exSched exInit))) = 2 \<and>
   fatal (mapRun exEnv exSched exInit) = None \<and>
   mapMoves exEnv exSched exInit + mapWork exEnv (mapRun exEnv exSched exInit)
     = mapWork exEnv exInit \<and>
   mapMoves exEnv exSched exInit = 27 \<and> mapWork exEnv exInit = 27 \<and>
   pc exInit \<noteq> PReturn \<and>
   (\<exists>t. mapStep exEnv t exInit \<noteq> None) \<and>
   (\<exists>more. pc (mapRun exEnv more exInit) = PReturn \<and>
      observedAll (mappers (mapRun exEnv more exInit))
        = mset [''<a> <b> <c> .'', ''<d> <e> <f> .''])"
proof -
  have h1: "0 < numGoroutines exOpt \<and> 10 \<le> pcRank (pc (mapRun exEnv exSched exInit))"
    by (simp add: exRun exFinal_def exOpt_def)
  have h2: "tempDir exEnv (tmpDir exOpt) ''bulkloader_tmp_posting_'' \<noteq> None \<and>
     pc exInit \<noteq> PReturn"
    by (simp add: exEnv_def exInit_def)
  note h = conjI [OF h1 h2]
  have q: "enqueued (mapRun exEnv exSched exInit) = [''<a> <b> <c> .'', ''<d> <e> <f> .'']"
    by (simp add: exRun exFinal_def)
  note t1 = mapStage_records_exactly_once
              [OF exNewLoader refl, of exSched "[''<a> <b> <c> .'', ''<d> <e> <f> .'']"]
  note t2 = mapStage_records_exactly_once
              [OF exNewLoader, of exInit "[]" "[''<a> <b> <c> .'', ''<d> <e> <f> .'']"]
  from t1 h
  have 1: "\<exists>lines. sourceRecords exEnv exOpt = Some (lines, False) \<and>
          enqueued (mapRun exEnv exSched exInit) = lines \<and>
          rdfCh (mapRun exEnv exSched exInit) = [] \<and>
          observedAll (mappers (mapRun exEnv exSched exInit)) = mset lines \<and>
          size (observedAll (mappers (mapRun exEnv exSched exInit))) = length lines"
    by blast
  with q have sr: "sourceRecords exEnv exOpt
                     = Some ([''<a> <b> <c> .'', ''<d> <e> <f> .''], False)" by auto
  from t1 h sr
  have 2: "fatal (mapRun exEnv exSched exInit) = None \<and>
     mapMoves exEnv exSched exInit + mapWork exEnv (mapRun exEnv exSched exInit)
       = mapWork exEnv exInit" by blast
  from t2 h sr
  have 3: "(\<exists>t. mapStep exEnv t exInit \<noteq> None) \<and>
     (\<exists>more. pc (mapRun exEnv more exInit) = PReturn \<and>
        observedAll (mappers (mapRun exEnv more exInit))
          = mset [''<a> <b> <c> .'', ''<d> <e> <f> .''])"
    by (simp del: mset.simps) blast
  from 1 2 3 q h sr exNewLoader exWork(1,2) show ?thesis by auto
qed

text \<open>
  Claim C7. \<open>HasSuffix\<close> is the test "the path ends with the suffix". The scanner of
  \<open>mapStage\<close> reads through a gzip reader if and only if \<open>rdfFile\<close> ends with \<open>.gz\<close>, and
  reads the raw stream otherwise. A compressed source whose decompressed stream is the
  stream of an uncompressed source yields the same records and the same scan error; and
  the records \<open>mapStage\<close> sends are those records.
\<close>

theorem gzip_iff_suffix:
  "(HasSuffix p ''.gz'' \<longleftrightarrow> (\<exists>pre. p = pre @ ''.gz'')) \<and>
   (sourceScanner e op f = Some (gz, toks) \<longrightarrow> (gz \<longleftrightarrow> HasSuffix (rdfFile op) ''.gz'')) \<and>
   (\<not> HasSuffix (rdfFile op) ''.gz'' \<longrightarrow> sourceScanner e op f = Some (False, scanner e f)) \<and>
   (HasSuffix (rdfFile op) ''.gz'' \<longrightarrow>
      sourceScanner e op f = map_option (\<lambda>gzr. (True, scanner e gzr)) (gzipNewReader e f)) \<and>
   (HasSuffix (rdfFile op1) ''.gz'' \<and> \<not> HasSuffix (rdfFile op2) ''.gz'' \<and>
    openFile e (rdfFile op1) = Some z \<and> gzipNewReader e z = Some c \<and>
    openFile e (rdfFile op2) = Some c
      \<longrightarrow> sourceRecords e op1 = sourceRecords e op2 \<and>
          sourceRecords e op2 = Some (scanner e c)) \<and>
   (newLoader e op = Inr s0 \<and> 6 \<le> pcRank (pc (mapRun e sched s0)) \<longrightarrow>
      (\<exists>err. sourceRecords e op
               = Some (enqueued (mapRun e sched s0) @ src (mapRun e sched s0), err)))"
proof (intro conjI impI)
  show "HasSuffix p ''.gz'' \<longleftrightarrow> (\<exists>pre. p = pre @ ''.gz'')" by (rule HasSuffix_iff)
next
  assume "sourceScanner e op f = Some (gz, toks)"
  then show "gz \<longleftrightarrow> HasSuffix (rdfFile op) ''.gz''"
    by (auto simp: sourceScanner_def split: if_splits option.splits)
next
  assume "\<not> HasSuffix (rdfFile op) ''.gz''"
  then show "sourceScanner e op f = Some (False, scanner e f)"
    by (simp add: sourceScanner_def)
next
  assume "HasSuffix (rdfFile op) ''.gz''"
  then show "sourceScanner e op f
               = map_option (\<lambda>gzr. (True, scanner e gzr)) (gzipNewReader e f)"
    by (simp add: sourceScanner_def split: option.splits)
next
  assume h: "HasSuffix (rdfFile op1) ''.gz'' \<and> \<not> HasSuffix (rdfFile op2) ''.gz'' \<and>
    openFile e (rdfFile op1) = Some z \<and> gzipNewReader e z = Some c \<and>
    openFile e (rdfFile op2) = Some c"
  then show "sourceRecords e op1 = sourceRecords e op2"
    by (simp add: sourceRecords_def sourceScanner_def)
  from h show "sourceRecords e op2 = Some (scanner e c)"
    by (simp add: sourceRecords_def sourceScanner_def)
next
  assume h: "newLoader e op = Inr s0 \<and> 6 \<le> pcRank (pc (mapRun e sched s0))"
  then have n: "newLoader e op = Inr s0" by simp
  note r = reachable_mapInv [OF n, of sched]
  from mapInv_parts(5) [OF r(1)] r(3) h
  show "\<exists>err. sourceRecords e op
               = Some (enqueued (mapRun e sched s0) @ src (mapRun e sched s0), err)"
    by (auto simp: invData_def sourceRecords_def)
qed

text \<open>The two concrete sources, plain and compressed, give the same two records.\<close>

theorem gzip_iff_suffix_witness:
  "newLoader exEnv exOpt = Inr exInit \<and> 6 \<le> pcRank (pc (mapRun exEnv exSched exInit)) \<and>
   HasSuffix (rdfFile exOptGz) ''.gz'' \<and> \<not> HasSuffix (rdfFile exOpt) ''.gz'' \<and>
   sourceScanner exEnv exOptGz (CHR ''Z'' # exContent, False)
     = Some (True, [''<a> <b> <c> .'', ''<d> <e> <f> .''], False) \<and>
   sourceScanner exEnv exOpt (exContent, False)
     = Some (False, [''<a> <b> <c> .'', ''<d> <e> <f> .''], False) \<and>
   sourceRecords exEnv exOptGz = sourceRecords exEnv exOpt \<and>
   sourceRecords exEnv exOpt = Some ([''<a> <b> <c> .'', ''<d> <e> <f> .''], False)"
proof -
  have h: "HasSuffix (rdfFile exOptGz) ''.gz'' \<and> \<not> HasSuffix (rdfFile exOpt) ''.gz'' \<and>
    openFile exEnv (rdfFile exOptGz) = Some (CHR ''Z'' # exContent, False) \<and>
    gzipNewReader exEnv (CHR ''Z'' # exContent, False) = Some (exContent, False) \<and>
    openFile exEnv (rdfFile exOpt) = Some (exContent, False)"
    by (simp add: HasSuffix_def exOptGz_def exOpt_def exEnv_def)
  have p: "6 \<le> pcRank (pc (mapRun exEnv exSched exInit))"
    by (simp add: exRun exFinal_def)
  have s: "scanner exEnv (exContent, False) = ([''<a> <b> <c> .'', ''<d> <e> <f> .''], False)"
    by (simp add: exEnv_def exSplit)
  from gzip_iff_suffix
         [of "rdfFile exOptGz" exEnv exOptGz "(CHR ''Z'' # exContent, False)" True
             "([''<a> <b> <c> .'', ''<d> <e> <f> .''], False)" exOptGz exOpt
             "(CHR ''Z'' # exContent, False)" "(exContent, False)" exInit exSched]
       gzip_iff_suffix
         [of "rdfFile exOpt" exEnv exOpt "(exContent, False)" False
             "([''<a> <b> <c> .'', ''<d> <e> <f> .''], False)" exOptGz exOpt
             "(CHR ''Z'' # exContent, False)" "(exContent, False)" exInit exSched]
       h p s exNewLoader
  show ?thesis by simp
qed

text \<open>
  Claim C6, as stated, fails: when the source file cannot be opened, \<open>mapStage\<close> has
  already started the goroutine of the Spill Writer. The third step of the main
  goroutine on the missing source is the fatal error, and the writer is running.
\<close>

theorem setup_failure_after_writer_counterexample:
  "newLoader exEnv exOptMissing = Inr exInitMissing \<and>
   openFile exEnv (rdfFile exOptMissing) = None \<and>
   fatal (mapRun exEnv [TMain, TMain, TMain] exInitMissing)
     = Some ''Could not read RDF file.'' \<and>
   writerStarted (mapRun exEnv [TMain, TMain, TMain] exInitMissing)"
  by (simp add: newLoader_def exEnv_def exOptMissing_def exOpt_def exInit_def exInitMissing_def
        numeral_2_eq_2 mapRun_def mapStep_def mainStep_def)

text \<open>
  Claim C6, amended. Every setup failure is fatal, and after a fatal error no goroutine
  moves. A schema that cannot be read or parsed makes \<open>newLoader\<close> fail, and the loader
  \<open>newLoader\<close> returns has no goroutine started. A source that cannot be opened stops
  \<open>mapStage\<close> at \<open>os.Open\<close>: the Spill Writer has been started, no mapper has. A gzip
  reader that cannot be created stops \<open>mapStage\<close> at \<open>gzip.NewReader\<close>: the Spill Writer
  and every mapper have been started.
\<close>

theorem setup_failures_fatal:
  "((readFile e (schemaFile op) = None \<or>
     (\<exists>buf. readFile e (schemaFile op) = Some buf \<and> \<not> schemaParse e buf))
      \<longrightarrow> (\<exists>msg. newLoader e op = Inl (Fatal msg))) \<and>
   (newLoader e op = Inr s0 \<longrightarrow>
      \<not> writerStarted s0 \<and> (\<forall>j < length (mappers s0). mpc (mappers s0 ! j) = MIdle)) \<and>
   (newLoader e op = Inr s0 \<and> s = mapRun e sched s0 \<longrightarrow>
      (openFile e (rdfFile op) = None \<longrightarrow>
         pcRank (pc s) \<le> 2 \<and>
         (pc s = POpen \<and> fatal s = None \<longrightarrow>
            mapStep e TMain s = Some (s\<lparr>fatal := Some ''Could not read RDF file.''\<rparr>))) \<and>
      (HasSuffix (rdfFile op) ''.gz'' \<and> gzipNewReader e (rdfStream s) = None \<longrightarrow>
         pcRank (pc s) \<le> 5 \<and>
         (pc s = PScanner \<and> fatal s = None \<longrightarrow>
            mapStep e TMain s
              = Some (s\<lparr>fatal := Some ''Could not create gzip reader for RDF file.''\<rparr>))) \<and>
      (fatal s = Some ''Could not read RDF file.'' \<longrightarrow>
         openFile e (rdfFile op) = None \<and> writerStarted s \<and>
         (\<forall>j < length (mappers s). mpc (mappers s ! j) = MIdle)) \<and>
      (fatal s = Some ''Could not create gzip reader for RDF file.'' \<longrightarrow>
         HasSuffix (rdfFile op) ''.gz'' \<and> gzipNewReader e (rdfStream s) = None \<and>
         writerStarted s \<and> (\<forall>j < length (mappers s). mpc (mappers s ! j) \<noteq> MIdle)) \<and>
      (fatal s \<noteq> None \<longrightarrow> (\<forall>t. mapStep e t s = None)))"
proof (intro conjI impI)
  assume "readFile e (schemaFile op) = None \<or>
     (\<exists>buf. readFile e (schemaFile op) = Some buf \<and> \<not> schemaParse e buf)"
  then show "\<exists>msg. newLoader e op = Inl (Fatal msg)"
    by (auto simp: newLoader_def)
next
  assume "newLoader e op = Inr s0"
  then show "\<not> writerStarted s0" "\<forall>j < length (mappers s0). mpc (mappers s0 ! j) = MIdle"
    by (auto simp: newLoader_def split: option.splits if_splits)
next
  assume h: "newLoader e op = Inr s0 \<and> s = mapRun e sched s0"
  then have n: "newLoader e op = Inr s0" and s: "s = mapRun e sched s0" by simp_all
  note r = reachable_mapInv [OF n, of sched, folded s]
  note c = mapInv_parts(1) [OF r(1)] and i = mapInv_parts(2) [OF r(1)]
    and d = mapInv_parts(5) [OF r(1)] and f = mapInv_parts(6) [OF r(1)]
  {
    assume o: "openFile e (rdfFile op) = None"
    show "pcRank (pc s) \<le> 2" using d o r(3) by (auto simp: invData_def)
    assume "pc s = POpen \<and> fatal s = None"
    with o r(3)
    show "mapStep e TMain s = Some (s\<lparr>fatal := Some ''Could not read RDF file.''\<rparr>)"
      by (simp add: mapStep_def mainStep_simps)
  }
  {
    assume g: "HasSuffix (rdfFile op) ''.gz'' \<and> gzipNewReader e (rdfStream s) = None"
    then have ss: "sourceScanner e op (rdfStream s) = None" by (simp add: sourceScanner_def)
    show "pcRank (pc s) \<le> 5" using d ss r(3) by (auto simp: invData_def)
    assume "pc s = PScanner \<and> fatal s = None"
    with ss r(3)
    show "mapStep e TMain s
            = Some (s\<lparr>fatal := Some ''Could not create gzip reader for RDF file.''\<rparr>)"
      by (simp add: mapStep_def mainStep_simps)
  }
  {
    assume "fatal s = Some ''Could not read RDF file.''"
    with f have p: "pc s = POpen" "openFile e (rdfFile (opt s)) = None"
      by (auto simp: invFatal_def)
    from p(2) r(3) show "openFile e (rdfFile op) = None" by simp
    from p(1) c show "writerStarted s" by (simp add: invCtl_def)
    from p(1) i show "\<forall>j < length (mappers s). mpc (mappers s ! j) = MIdle"
      by (simp add: invIdle_def)
  }
  {
    assume "fatal s = Some ''Could not create gzip reader for RDF file.''"
    with f have p: "pc s = PScanner" "sourceScanner e (opt s) (rdfStream s) = None"
      by (auto simp: invFatal_def)
    from p(2) r(3) show "HasSuffix (rdfFile op) ''.gz''" "gzipNewReader e (rdfStream s) = None"
      by (auto simp: sourceScanner_def split: if_splits option.splits)
    from p(1) c show "writerStarted s" by (simp add: invCtl_def)
    from p(1) i show "\<forall>j < length (mappers s). mpc (mappers s ! j) \<noteq> MIdle"
      by (simp add: invIdle_def)
  }
  {
    assume "fatal s \<noteq> None"
    then show "\<forall>t. mapStep e t s = None" by (simp add: mapStep_fatal)
  }
qed

text \<open>
  Concrete runs on the small world: a missing schema, the missing source (before and
  after the fatal step), and \<open>bad.gz\<close>, which is not compressed (before and after).
\<close>

theorem setup_failures_fatal_witness:
  "readFile exEnv (schemaFile exOptNoSchema) = None \<and>
   newLoader exEnv exOptNoSchema = Inl (Fatal ''Could not load schema.'') \<and>
   newLoader exEnv exOptMissing = Inr exInitMissing \<and>
   openFile exEnv (rdfFile exOptMissing) = None \<and>
   pc (mapRun exEnv [TMain, TMain] exInitMissing) = POpen \<and>
   fatal (mapRun exEnv [TMain, TMain] exInitMissing) = None \<and>
   fatal (mapRun exEnv [TMain, TMain, TMain] exInitMissing)
     = Some ''Could not read RDF file.'' \<and>
   writerStarted (mapRun exEnv [TMain, TMain, TMain] exInitMissing) \<and>
   mapStep exEnv TWriter (mapRun exEnv [TMain, TMain, TMain] exInitMissing) = None \<and>
   newLoader exEnv exOptBadGz = Inr exInitBadGz \<and>
   HasSuffix (rdfFile exOptBadGz) ''.gz'' \<and>
   gzipNewReader exEnv (rdfStream (mapRun exEnv (replicate 7 TMain) exInitBadGz)) = None \<and>
   pc (mapRun exEnv (replicate 7 TMain) exInitBadGz) = PScanner \<and>
   fatal (mapRun exEnv (replicate 7 TMain) exInitBadGz) = None \<and>
   pcRank (pc (mapRun exEnv (replicate 8 TMain) exInitBadGz)) \<le> 5 \<and>
   fatal (mapRun exEnv (replicate 8 TMain) exInitBadGz)
     = Some ''Could not create gzip reader for RDF file.'' \<and>
   writerStarted (mapRun exEnv (replicate 8 TMain) exInitBadGz) \<and>
   mpc (mappers (mapRun exEnv (replicate 8 TMain) exInitBadGz) ! 1) \<noteq> MIdle"
proof -
  have a: "readFile exEnv (schemaFile exOptNoSchema) = None"
    by (simp add: exEnv_def exOptNoSchema_def exOpt_def)
  have b: "newLoader exEnv exOptMissing = Inr exInitMissing"
    "openFile exEnv (rdfFile exOptMissing) = None"
    by (simp_all add: newLoader_def exEnv_def exOptMissing_def exOpt_def exInit_def
          exInitMissing_def numeral_2_eq_2)
  have c: "pc (mapRun exEnv [TMain, TMain] exInitMissing) = POpen"
    "fatal (mapRun exEnv [TMain, TMain] exInitMissing) = None"
    "fatal (mapRun exEnv [TMain, TMain, TMain] exInitMissing) = Some ''Could not read RDF file.''"
    by code_simp+
  have d: "newLoader exEnv exOptBadGz = Inr exInitBadGz"
    "HasSuffix (rdfFile exOptBadGz) ''.gz''"
    by (simp_all add: newLoader_def exEnv_def exOptBadGz_def exOpt_def exInit_def
          exInitBadGz_def numeral_2_eq_2 HasSuffix_def)
  have g: "gzipNewReader exEnv (rdfStream (mapRun exEnv (replicate 7 TMain) exInitBadGz)) = None"
    "pc (mapRun exEnv (replicate 7 TMain) exInitBadGz) = PScanner"
    "fatal (mapRun exEnv (replicate 7 TMain) exInitBadGz) = None"
    "fatal (mapRun exEnv (replicate 8 TMain) exInitBadGz)
       = Some ''Could not create gzip reader for RDF file.''"
    "length (mappers (mapRun exEnv (replicate 8 TMain) exInitBadGz)) = 2"
    by code_simp+
  note t1 = setup_failures_fatal [of exEnv exOptNoSchema exInit exInit "[]"]
  note t2 = setup_failures_fatal
              [of exEnv exOptMissing exInitMissing
                  "mapRun exEnv [TMain, TMain] exInitMissing" "[TMain, TMain]"]
  note t3 = setup_failures_fatal
              [of exEnv exOptMissing exInitMissing
                  "mapRun exEnv [TMain, TMain, TMain] exInitMissing" "[TMain, TMain, TMain]"]
  note t4 = setup_failures_fatal
              [of exEnv exOptBadGz exInitBadGz
                  "mapRun exEnv (replicate 7 TMain) exInitBadGz" "replicate 7 TMain"]
  note t5 = setup_failures_fatal
              [of exEnv exOptBadGz exInitBadGz
                  "mapRun exEnv (replicate 8 TMain) exInitBadGz" "replicate 8 TMain"]
  have "newLoader exEnv exOptNoSchema = Inl (Fatal ''Could not load schema.'')"
    using t1 a by (auto simp: newLoader_def)
  moreover have "writerStarted (mapRun exEnv [TMain, TMain, TMain] exInitMissing)"
    "mapStep exEnv TWriter (mapRun exEnv [TMain, TMain, TMain] exInitMissing) = None"
    using t3 b c by auto
  moreover have "pcRank (pc (mapRun exEnv (replicate 8 TMain) exInitBadGz)) \<le> 5"
    "writerStarted (mapRun exEnv (replicate 8 TMain) exInitBadGz)"
    "mpc (mappers (mapRun exEnv (replicate 8 TMain) exInitBadGz) ! 1) \<noteq> MIdle"
    using t5 d g by auto
  moreover have "mapStep exEnv TMain (mapRun exEnv [TMain, TMain] exInitMissing) \<noteq> None"
    using t2 b c by auto
  moreover have "mapStep exEnv TMain (mapRun exEnv (replicate 7 TMain) exInitBadGz) \<noteq> None"
    using t4 d g by auto
  ultimately show ?thesis using a b c d g by simp
qed

subsection \<open>Every reachable state of the reduce stage\<close>

text \<open>
  Claim C2. In every state \<open>reduceStage\<close> can reach, for every schedule of the goroutines
  and every sequence of batches the shuffler sends, the number of tokens in \<open>pending\<close> is
  at most \<open>numGoroutines\<close>, and the number of goroutines whose call of \<open>reduce\<close> has
  not returned, hence the number of calls in progress, is at most the number of tokens.
\<close>

theorem reduce_tokens_bounded:
  "pending (reduceRun e sched (reduceInit e ld)) \<le> nat (numGoroutines (opt ld)) \<and>
   activeCount (workers (reduceRun e sched (reduceInit e ld)))
     \<le> pending (reduceRun e sched (reduceInit e ld)) \<and>
   activeCount (workers (reduceRun e sched (reduceInit e ld))) \<le> nat (numGoroutines (opt ld))"
proof -
  let ?s = "reduceRun e sched (reduceInit e ld)"
  note r = reachable_reduceInv [of e sched ld]
  have a: "pending ?s \<le> nat (numGoroutines (opt ld))"
    using r by (simp add: reduceInv_def)
  have b: "activeCount (workers ?s) \<le> pending ?s"
    using r(1) activeCount_le_holderCount [of "workers ?s"] by (simp add: reduceInv_def)
  from a b show ?thesis by simp
qed

text \<open>The bound is reached: two tokens, two goroutines running \<open>reduce\<close>.\<close>

theorem reduce_tokens_bounded_witness:
  "nat (numGoroutines (opt exFinal)) = 2 \<and>
   pending (reduceRun exEnv exSchedAhead exR0) = 2 \<and>
   activeCount (workers (reduceRun exEnv exSchedAhead exR0)) = 2"
proof -
  have n: "nat (numGoroutines (opt exFinal)) = 2"
    by (simp add: exFinal_def exOpt_def)
  have a: "activeCount (workers (reduceRun exEnv exSchedAhead exR0)) = 2"
    by (simp add: exReduceRuns activeCount_def)
  from reduce_tokens_bounded [of exEnv exSchedAhead exFinal, folded exR0_def] n a
  show ?thesis by simp
qed

text \<open>
  Claim C3, as stated, fails: when the aggregator call panics, the goroutine does not
  release its token. In the concrete run the process has crashed, the goroutine is gone,
  the token is still in \<open>pending\<close>, and nothing moves any more.
\<close>

theorem token_held_after_panic_counterexample:
  "workers (reduceRun exEnvPanic exSchedPanic exR0) = [WPanic] \<and>
   pending (reduceRun exEnvPanic exSchedPanic exR0) = 1 \<and>
   crashed (reduceRun exEnvPanic exSchedPanic exR0) \<and>
   reduceStep exEnvPanic (TReducer 0) (reduceRun exEnvPanic exSchedPanic exR0) = None \<and>
   reduceStep exEnvPanic TMain (reduceRun exEnvPanic exSchedPanic exR0) = None"
  by (simp add: exReduceRuns reduceStep_def)

text \<open>
  Claim C3, amended. The tokens in \<open>pending\<close> are exactly those of the goroutines that have
  not passed the receive from \<open>pending\<close>, plus the one the main loop holds between its send
  and the \<open>go\<close> statement. A goroutine whose call of \<open>reduce\<close> returns goes on to that
  receive, which never blocks, so its token is released before it exits; when every
  goroutine has passed it, no token is held. A call of \<open>reduce\<close> that does not return
  leaves the token in \<open>pending\<close> and ends the process.
\<close>

theorem reduce_token_release:
  assumes "s = reduceRun e sched (reduceInit e ld)"
  shows "pending s = holderCount (workers s) + (if rpc s = RSpawn then 1 else 0) \<and>
     (\<forall>i < length (workers s).
        \<not> crashed s \<and> workers s ! i = WReduce \<and> reduceReturns e (batch s) \<longrightarrow>
        reduceStep e (TReducer i) s = Some (s\<lparr>workers := (workers s)[i := WRelease]\<rparr>)) \<and>
     (\<forall>i < length (workers s).
        \<not> crashed s \<and> workers s ! i = WRelease \<longrightarrow>
        reduceStep e (TReducer i) s
          = Some (s\<lparr>pending := pending s - 1, workers := (workers s)[i := WDone]\<rparr>)) \<and>
     ((\<forall>i < length (workers s). workers s ! i = WDone \<or> workers s ! i = WExit) \<and>
      rpc s \<noteq> RSpawn \<longrightarrow> pending s = 0) \<and>
     (\<forall>i < length (workers s).
        \<not> crashed s \<and> workers s ! i = WReduce \<and> \<not> reduceReturns e (batch s) \<longrightarrow>
        reduceStep e (TReducer i) s
          = Some (s\<lparr>workers := (workers s)[i := WPanic], crashed := True\<rparr>)) \<and>
     ((\<exists>i < length (workers s). workers s ! i = WPanic) \<longrightarrow>
        crashed s \<and> 0 < pending s \<and> (\<forall>t. reduceStep e t s = None))"
proof -
  note r = reachable_reduceInv(1) [of e sched ld, folded assms]
  note c = reachable_invCrash [of e sched ld, folded assms]
  have p: "pending s = holderCount (workers s) + (if rpc s = RSpawn then 1 else 0)"
    using r by (simp add: reduceInv_def)
  have a: "reduceStep e (TReducer i) s = Some (s\<lparr>workers := (workers s)[i := WRelease]\<rparr>)"
    if "i < length (workers s)" "\<not> crashed s \<and> workers s ! i = WReduce \<and> reduceReturns e (batch s)"
    for i using that by (simp add: reduceStep_def workerStep_def)
  have b: "reduceStep e (TReducer i) s
             = Some (s\<lparr>pending := pending s - 1, workers := (workers s)[i := WDone]\<rparr>)"
    if "i < length (workers s)" "\<not> crashed s \<and> workers s ! i = WRelease" for i
  proof -
    have "0 < holderCount (workers s)" using that by (intro holderCount_pos [of i]) auto
    with p have "0 < pending s" by simp
    with that show ?thesis by (simp add: reduceStep_def workerStep_def)
  qed
  have d: "pending s = 0"
    if "(\<forall>i < length (workers s). workers s ! i = WDone \<or> workers s ! i = WExit) \<and> rpc s \<noteq> RSpawn"
    using that p holderCount_zero [of "workers s"] by simp
  have f: "reduceStep e (TReducer i) s
             = Some (s\<lparr>workers := (workers s)[i := WPanic], crashed := True\<rparr>)"
    if "i < length (workers s)"
       "\<not> crashed s \<and> workers s ! i = WReduce \<and> \<not> reduceReturns e (batch s)"
    for i using that by (simp add: reduceStep_def workerStep_def)
  have g: "crashed s \<and> 0 < pending s \<and> (\<forall>t. reduceStep e t s = None)"
    if "\<exists>i < length (workers s). workers s ! i = WPanic"
  proof -
    from that obtain i where i: "i < length (workers s)" "workers s ! i = WPanic" by blast
    then have "0 < holderCount (workers s)" by (intro holderCount_pos [of i]) auto
    with p have "0 < pending s" by simp
    moreover have "crashed s" using c that by (simp add: invCrash_def)
    ultimately show ?thesis by (simp add: reduceStep_def)
  qed
  from p a b d f g show ?thesis by blast
qed

text \<open>
  Concrete runs: a goroutine whose call returns goes through the release to the end and
  leaves no token; with the panicking aggregator the token stays.
\<close>

theorem reduce_token_release_witness:
  "workers (reduceRun exEnv (take 5 exSchedOne) exR0) = [WReduce] \<and>
   reduceStep exEnv (TReducer 0) (reduceRun exEnv (take 5 exSchedOne) exR0)
     = Some (reduceRun exEnv (take 6 exSchedOne) exR0) \<and>
   workers (reduceRun exEnv (take 6 exSchedOne) exR0) = [WRelease] \<and>
   pending (reduceRun exEnv (take 6 exSchedOne) exR0) = 1 \<and>
   reduceStep exEnv (TReducer 0) (reduceRun exEnv (take 6 exSchedOne) exR0) \<noteq> None \<and>
   workers (reduceRun exEnv exSchedOne exR0) = [WExit] \<and>
   pending (reduceRun exEnv exSchedOne exR0) = 0 \<and>
   workers (reduceRun exEnvPanic (take 5 exSchedPanic) exR0) = [WReduce] \<and>
   reduceStep exEnvPanic (TReducer 0) (reduceRun exEnvPanic (take 5 exSchedPanic) exR0)
     = Some (reduceRun exEnvPanic exSchedPanic exR0) \<and>
   workers (reduceRun exEnvPanic exSchedPanic exR0) = [WPanic] \<and>
   crashed (reduceRun exEnvPanic exSchedPanic exR0) \<and>
   0 < pending (reduceRun exEnvPanic exSchedPanic exR0) \<and>
   reduceStep exEnvPanic TShuffle (reduceRun exEnvPanic exSchedPanic exR0) = None"
proof -
  note t1 = reduce_token_release [of _ exEnv "take 5 exSchedOne" exFinal, folded exR0_def, OF refl]
  note t2 = reduce_token_release [of _ exEnv "take 6 exSchedOne" exFinal, folded exR0_def, OF refl]
  note t3 = reduce_token_release [of _ exEnv exSchedOne exFinal, folded exR0_def, OF refl]
  note t4 = reduce_token_release
              [of _ exEnvPanic "take 5 exSchedPanic" exFinal, unfolded exR0_panic, OF refl]
  note t5 = reduce_token_release
              [of _ exEnvPanic exSchedPanic exFinal, unfolded exR0_panic, OF refl]
  have r: "reduceReturns exEnv [1]" "\<not> reduceReturns exEnvPanic [1]"
    by (simp_all add: exEnv_def exEnvPanic_def)
  have "reduceStep exEnv (TReducer 0) (reduceRun exEnv (take 5 exSchedOne) exR0)
          = Some (reduceRun exEnv (take 6 exSchedOne) exR0)"
    using t1 r by (simp add: exReduceSteps holderCount_def)
  moreover have "reduceStep exEnv (TReducer 0) (reduceRun exEnv (take 6 exSchedOne) exR0) \<noteq> None"
    using t2 by (simp add: exReduceSteps holderCount_def)
  moreover have "pending (reduceRun exEnv exSchedOne exR0) = 0"
    using t3 by (simp add: exReduceRuns holderCount_def)
  moreover have "reduceStep exEnvPanic (TReducer 0)
                   (reduceRun exEnvPanic (take 5 exSchedPanic) exR0)
                 = Some (reduceRun exEnvPanic exSchedPanic exR0)"
    using t4 r by (simp add: exReduceSteps exReduceRuns holderCount_def)
  moreover have "crashed (reduceRun exEnvPanic exSchedPanic exR0) \<and>
      0 < pending (reduceRun exEnvPanic exSchedPanic exR0) \<and>
      reduceStep exEnvPanic TShuffle (reduceRun exEnvPanic exSchedPanic exR0) = None"
    using t5 by (simp add: exReduceRuns holderCount_def)
  ultimately show ?thesis by (simp add: exReduceSteps exReduceRuns holderCount_def)
qed

text \<open>
  Claim C8, as stated, fails: the bound of 3 is on the batches waiting in the queue, not
  on the lead of the shuffler over the reducers. In the concrete run with two tokens the
  shuffler has sent six batches and no call of \<open>reduce\<close> has returned; only then is the
  queue full and the next send blocked.
\<close>

theorem shuffler_six_ahead_counterexample:
  "emitted (reduceRun exEnv exSchedAhead exR0) = 6 \<and>
   reducedCount (workers (reduceRun exEnv exSchedAhead exR0)) = 0 \<and>
   workers (reduceRun exEnv exSchedAhead exR0) = [WReduce, WReduce] \<and>
   length (reduceCh (reduceRun exEnv exSchedAhead exR0)) = 3 \<and>
   toSend (reduceRun exEnv exSchedAhead exR0) = [[7]] \<and>
   reduceStep exEnv TShuffle (reduceRun exEnv exSchedAhead exR0) = None"
  by (simp add: exReduceRuns reducedCount_def reduceStep_def shuffleStep_def reduceChCap_def)

text \<open>
  Claim C8, amended. The batch queue has capacity 3: it never holds more than three
  batches, and the send of the shuffler blocks exactly when it holds three. The batches
  sent are those in the queue, the one the main loop holds while it waits for a token
  or spawns, and one per goroutine spawned; so the shuffler is at most
  \<open>3 + 1 + numGoroutines\<close> batches ahead of the calls of \<open>reduce\<close> that have returned.
\<close>

theorem batch_queue_bound:
  assumes "s = reduceRun e sched (reduceInit e ld)"
  shows "reduceChCap = 3 \<and> length (reduceCh s) \<le> 3 \<and>
     emitted s = length (reduceCh s) + (if rpc s = RAcquire \<or> rpc s = RSpawn then 1 else 0)
                 + length (workers s) \<and>
     emitted s \<le> reducedCount (workers s) + 3 + 1 + nat (numGoroutines (opt ld)) \<and>
     (\<not> crashed s \<and> shuffleStarted s \<and> \<not> reduceClosed s \<and> toSend s \<noteq> [] \<longrightarrow>
        (reduceStep e TShuffle s = None \<longleftrightarrow> length (reduceCh s) = 3))"
proof -
  note r = reachable_reduceInv [of e sched ld, folded assms]
  have q: "length (reduceCh s) \<le> 3" using r(1) by (simp add: reduceInv_def reduceChCap_def)
  have em: "emitted s = length (reduceCh s)
              + (if rpc s = RAcquire \<or> rpc s = RSpawn then 1 else 0) + length (workers s)"
    using r(1) by (simp add: reduceInv_def)
  have "holderCount (workers s) \<le> nat (numGoroutines (opt ld))"
    using r by (simp add: reduceInv_def)
  with length_le_reduced_holder [of "workers s"]
  have "length (workers s) \<le> reducedCount (workers s) + nat (numGoroutines (opt ld))"
    by simp
  with q em have b: "emitted s \<le> reducedCount (workers s) + 3 + 1 + nat (numGoroutines (opt ld))"
    by (simp split: if_splits)
  have bl: "reduceStep e TShuffle s = None \<longleftrightarrow> length (reduceCh s) = 3"
    if "\<not> crashed s \<and> shuffleStarted s \<and> \<not> reduceClosed s \<and> toSend s \<noteq> []"
    using that q
    by (cases "toSend s") (auto simp: reduceStep_def shuffleStep_def reduceChCap_def)
  from q em b bl show ?thesis by (simp add: reduceChCap_def)
qed

text \<open>The concrete run reaches the bound: six batches sent, none reduced, two tokens.\<close>

theorem batch_queue_bound_witness:
  "\<not> crashed (reduceRun exEnv exSchedAhead exR0) \<and>
   shuffleStarted (reduceRun exEnv exSchedAhead exR0) \<and>
   \<not> reduceClosed (reduceRun exEnv exSchedAhead exR0) \<and>
   toSend (reduceRun exEnv exSchedAhead exR0) \<noteq> [] \<and>
   length (reduceCh (reduceRun exEnv exSchedAhead exR0)) = 3 \<and>
   reduceStep exEnv TShuffle (reduceRun exEnv exSchedAhead exR0) = None \<and>
   emitted (reduceRun exEnv exSchedAhead exR0)
     = reducedCount (workers (reduceRun exEnv exSchedAhead exR0)) + 3 + 1
       + nat (numGoroutines (opt exFinal))"
proof -
  have h: "\<not> crashed (reduceRun exEnv exSchedAhead exR0) \<and>
     shuffleStarted (reduceRun exEnv exSchedAhead exR0) \<and>
     \<not> reduceClosed (reduceRun exEnv exSchedAhead exR0) \<and>
     toSend (reduceRun exEnv exSchedAhead exR0) \<noteq> [] \<and>
     length (reduceCh (reduceRun exEnv exSchedAhead exR0)) = 3 \<and>
     emitted (reduceRun exEnv exSchedAhead exR0) = 6 \<and>
     reducedCount (workers (reduceRun exEnv exSchedAhead exR0)) = 0"
    by (simp add: exReduceRuns reducedCount_def)
  have n: "nat (numGoroutines (opt exFinal)) = 2" by (simp add: exFinal_def exOpt_def)
  from batch_queue_bound [of _ exEnv exSchedAhead exFinal, folded exR0_def, OF refl] h n
  show ?thesis by simp
qed

text \<open>
  Claim C4. In every state the loader can reach, in the map phase and after it: if the
  input queue is closed, the source is exhausted and all its lines have been sent; if
  the output queue is closed, the input queue is closed and every mapper has exited
  (the wait group of the mappers is zero); the writer finishes only after the output
  queue is closed; when \<open>mapStage\<close> has returned, the output queue is closed, the writer
  has been joined and \<open>mapOutput\<close> is the run list it returned; and the reduce phase is
  entered only from that state.
\<close>

theorem mapStage_termination_order:
  assumes "newLoader e op = Inr s0" and "ph = loaderRun e sched (Mapping s0)"
    and "s = mapOf ph"
  shows "(rdfClosed s \<longrightarrow> src s = [] \<and> sourceRecords e op = Some (enqueued s, False)) \<and>
     (postingsClosed s \<longrightarrow>
        rdfClosed s \<and> mapperWg s = 0 \<and>
        (\<forall>j < length (mappers s). mpc (mappers s ! j) = MExit)) \<and>
     (writerDone s \<longrightarrow> postingsClosed s) \<and>
     (pc s = PReturn \<longrightarrow>
        postingsClosed s \<and> writerDone s \<and> postingWriterWg s = 0 \<and>
        mapOutput s = writeRuns e (tmpPostingsDir s) (received s)) \<and>
     (\<forall>r. ph = Reducing s r \<longrightarrow> pc s = PReturn \<and> fatal s = None)"
proof -
  have pi: "phaseInv e op ph"
    using loaderRun_phaseInv [OF newLoader_phaseInv [OF assms(1)], of sched] assms(2) by simp
  then have inv: "mapInv e s" and io: "invOut e s" and o: "opt s = op"
    using assms(3) by (simp_all add: phaseInv_def)
  note c = mapInv_parts(1) [OF inv] and w = mapInv_parts(3) [OF inv]
    and x = mapInv_parts(4) [OF inv] and d = mapInv_parts(5) [OF inv]
  have 1: "src s = [] \<and> sourceRecords e op = Some (enqueued s, False)" if "rdfClosed s"
  proof -
    from that c have r: "9 \<le> pcRank (pc s)" by (simp add: invCtl_def)
    with c have "src s = []" "\<not> srcErr s" by (simp_all add: invCtl_def)
    with d r o show ?thesis by (auto simp: invData_def sourceRecords_def)
  qed
  have 2: "rdfClosed s \<and> mapperWg s = 0 \<and>
           (\<forall>j < length (mappers s). mpc (mappers s ! j) = MExit)" if "postingsClosed s"
  proof -
    from that c have r: "11 \<le> pcRank (pc s)" by (simp add: invCtl_def)
    with x have a: "\<forall>j < length (mappers s). mpc (mappers s ! j) = MExit"
      by (simp add: invExit_def)
    then have "exitedCount (mappers s) = length (mappers s)" by (simp add: exitedCount_all)
    with w r have "mapperWg s = 0" by (simp add: invWg_def)
    with a r c show ?thesis by (auto simp: invCtl_def)
  qed
  have 3: "postingsClosed s" if "writerDone s" using that c by (auto simp: invCtl_def)
  have 4: "postingsClosed s \<and> writerDone s \<and> postingWriterWg s = 0 \<and>
           mapOutput s = writeRuns e (tmpPostingsDir s) (received s)" if "pc s = PReturn"
    using that c io by (auto simp: invCtl_def invOut_def)
  have 5: "\<forall>r. ph = Reducing s r \<longrightarrow> pc s = PReturn \<and> fatal s = None"
    using pi by (simp add: phaseInv_def)
  from 1 2 3 4 5 show ?thesis by blast
qed

text \<open>The concrete run of \<open>mapStage\<close>, followed by the step that enters \<open>reduceStage\<close>.\<close>

theorem mapStage_termination_order_witness:
  "newLoader exEnv exOpt = Inr exInit \<and>
   loaderRun exEnv (exSched @ [TMain]) (Mapping exInit) = Reducing exFinal exR0 \<and>
   rdfClosed exFinal \<and> postingsClosed exFinal \<and> writerDone exFinal \<and> pc exFinal = PReturn \<and>
   src exFinal = [] \<and> sourceRecords exEnv exOpt = Some (enqueued exFinal, False) \<and>
   mapperWg exFinal = 0 \<and> postingWriterWg exFinal = 0 \<and>
   mapOutput exFinal = writeRuns exEnv (tmpPostingsDir exFinal) (received exFinal)"
proof -
  have h: "rdfClosed exFinal \<and> postingsClosed exFinal \<and> writerDone exFinal \<and> pc exFinal = PReturn"
    by (simp add: exFinal_def)
  from mapStage_termination_order
         [OF exNewLoader, of "Reducing exFinal exR0" "exSched @ [TMain]" exFinal] exLoaderRun h
  have "src exFinal = [] \<and> sourceRecords exEnv exOpt = Some (enqueued exFinal, False) \<and>
        mapperWg exFinal = 0 \<and> postingWriterWg exFinal = 0 \<and>
        mapOutput exFinal = writeRuns exEnv (tmpPostingsDir exFinal) (received exFinal)"
    by simp
  with h exNewLoader exLoaderRun show ?thesis by simp
qed

text \<open>
  Claim C5. With a non-empty run list whose first run lies directly in the directory
  \<open>d\<close>, \<open>cleanup\<close> removes \<open>d\<close> and everything below it and nothing else (or the process
  ends, when \<open>os.RemoveAll\<close> reports an error); when all runs lie in \<open>d\<close>, no run file is
  left. With an empty run list \<open>cleanup\<close> leaves the file system as it is, so a temporary
  directory that exists before still exists afterwards.
\<close>

theorem cleanup_removes_run_directory:
  "(mapOutput ld \<noteq> [] \<and> filepathDir (mapOutput ld ! 0) = d \<and> \<not> removeAllFails e d \<longrightarrow>
      cleanup e ld fs = Inr (RemoveAll d fs) \<and>
      (\<forall>p. p \<in> RemoveAll d fs \<longleftrightarrow> p \<in> fs \<and> \<not> prefix d p) \<and>
      d \<notin> RemoveAll d fs \<and>
      (\<forall>r \<in> set (mapOutput ld). filepathDir r = d \<longrightarrow> r \<notin> RemoveAll d fs)) \<and>
   (mapOutput ld \<noteq> [] \<and> removeAllFails e (filepathDir (mapOutput ld ! 0)) \<longrightarrow>
      cleanup e ld fs = Inl (Fatal ''RemoveAll'')) \<and>
   (mapOutput ld = [] \<longrightarrow> cleanup e ld fs = Inr fs)"
proof (intro conjI impI)
  assume h: "mapOutput ld \<noteq> [] \<and> filepathDir (mapOutput ld ! 0) = d \<and> \<not> removeAllFails e d"
  then show "cleanup e ld fs = Inr (RemoveAll d fs)" by (simp add: cleanup_def)
  show "\<forall>p. p \<in> RemoveAll d fs \<longleftrightarrow> p \<in> fs \<and> \<not> prefix d p" by (simp add: RemoveAll_def)
  show "d \<notin> RemoveAll d fs" by (simp add: RemoveAll_def)
  show "\<forall>r \<in> set (mapOutput ld). filepathDir r = d \<longrightarrow> r \<notin> RemoveAll d fs"
  proof (intro ballI impI)
    fix r assume "r \<in> set (mapOutput ld)" "filepathDir r = d"
    then have "prefix d r" using prefixeq_butlast [of r] by (simp add: filepathDir_def)
    then show "r \<notin> RemoveAll d fs" by (simp add: RemoveAll_def)
  qed
next
  assume "mapOutput ld \<noteq> [] \<and> removeAllFails e (filepathDir (mapOutput ld ! 0))"
  then show "cleanup e ld fs = Inl (Fatal ''RemoveAll'')" by (simp add: cleanup_def)
next
  assume "mapOutput ld = []"
  then show "cleanup e ld fs = Inr fs" by (simp add: cleanup_def)
qed

text \<open>
  After the concrete run the temporary directory and its run file are removed; with
  the empty run list of the initial loader the file system is untouched.
\<close>

theorem cleanup_removes_run_directory_witness:
  "mapOutput exFinal \<noteq> [] \<and>
   filepathDir (mapOutput exFinal ! 0) = [''tmp'', ''bulkloader_tmp_posting_1''] \<and>
   \<not> removeAllFails exEnv [''tmp'', ''bulkloader_tmp_posting_1''] \<and>
   cleanup exEnv exFinal exFs = Inr (RemoveAll [''tmp'', ''bulkloader_tmp_posting_1''] exFs) \<and>
   RemoveAll [''tmp'', ''bulkloader_tmp_posting_1''] exFs = {[''tmp''], [''out'']} \<and>
   mapOutput exInit = [] \<and> cleanup exEnv exInit exFs = Inr exFs \<and>
   [''tmp'', ''bulkloader_tmp_posting_1''] \<in> exFs"
proof -
  have h: "mapOutput exFinal \<noteq> [] \<and>
     filepathDir (mapOutput exFinal ! 0) = [''tmp'', ''bulkloader_tmp_posting_1''] \<and>
     \<not> removeAllFails exEnv [''tmp'', ''bulkloader_tmp_posting_1'']"
    by (simp add: exFinal_def filepathDir_def exEnv_def)
  have e: "mapOutput exInit = []" by (simp add: exInit_def)
  have r: "RemoveAll [''tmp'', ''bulkloader_tmp_posting_1''] exFs = {[''tmp''], [''out'']}"
    by (auto simp: RemoveAll_def exFs_def)
  have m: "[''tmp'', ''bulkloader_tmp_posting_1''] \<in> exFs" by (simp add: exFs_def)
  from cleanup_removes_run_directory
         [of exFinal "[''tmp'', ''bulkloader_tmp_posting_1'']" exEnv exFs]
       cleanup_removes_run_directory
         [of exInit "[''tmp'', ''bulkloader_tmp_posting_1'']" exEnv exFs]
       h e r m
  show ?thesis by simp
qed

end
